theory Spec2Isabelle
  imports Main
begin

section \<open>Device buffers and the particle store of \<^verbatim>\<open>pysph/base/opencl.py\<close>\<close>

text \<open>
  The development embeds the two classes of \<^verbatim>\<open>pysph/base/opencl.py\<close>:
  \<^verbatim>\<open>DeviceArray\<close> (a resizable device buffer) and \<^verbatim>\<open>DeviceHelper\<close> (the
  store of named property and constant buffers of one particle array).

  Conventions of the embedding.
  \<^item> A device array is the list of its elements. Scalars are integers: the
    operations only move values around, and conversions between element types are not
    modelled.
  \<^item> \<^verbatim>\<open>cl.array.empty\<close> returns memory nobody has written. Its contents are a
    parameter \<open>j\<close> of every operation that allocates (slot \<open>i\<close> of a fresh
    array reads \<open>j i\<close>); the results about all inputs hold for every \<open>j\<close>.
  \<^item> A Python exception is a value of type \<open>error\<close>. The methods mutate their
    object in place, so a raising call returns the error together with the state the
    object is left in: \<open>Inl (e, s)\<close>; a normal return is \<open>Inr s\<close>.
  \<^item> An access outside a device array inside a kernel is undefined behaviour on the
    device. The model stops there with \<open>DeviceFault\<close>.
  \<^item> The work-items of a kernel are run in increasing order of \<open>i\<close>.
\<close>

subsection \<open>Errors and results\<close>

datatype error =
    ValueError
  | AttributeError string
  | KeyError string
  | IndexError
  | DeviceFault

type_synonym 's res = "(error \<times> 's) + 's"

definition state_of :: "'s res \<Rightarrow> 's" where
  "state_of r = (case r of Inl (e, s) \<Rightarrow> s | Inr s \<Rightarrow> s)"

definition raised :: "'s res \<Rightarrow> error option" where
  "raised r = (case r of Inl (e, s) \<Rightarrow> Some e | Inr s \<Rightarrow> None)"

text \<open>Sequencing of two mutating calls: the second runs if the first returned.\<close>

definition and_then :: "'s res \<Rightarrow> ('s \<Rightarrow> 's res) \<Rightarrow> 's res" where
  "and_then r f = (case r of Inl es \<Rightarrow> Inl es | Inr s \<Rightarrow> f s)"

text \<open>A value computed by a call that may raise without changing the state \<open>s\<close>.\<close>

definition with_value :: "error + 'a \<Rightarrow> 's \<Rightarrow> ('a \<Rightarrow> 's res) \<Rightarrow> 's res" where
  "with_value v s f = (case v of Inl e \<Rightarrow> Inl (e, s) | Inr x \<Rightarrow> f x)"

text \<open>\<^verbatim>\<open>for x in xs: body(x)\<close> over a mutable state; an exception leaves the loop.\<close>

fun for_each :: "('k \<Rightarrow> 's \<Rightarrow> 's res) \<Rightarrow> 'k list \<Rightarrow> 's \<Rightarrow> 's res" where
  "for_each body [] s = Inr s"
| "for_each body (x # xs) s =
     (case body x s of Inl es \<Rightarrow> Inl es | Inr s' \<Rightarrow> for_each body xs s')"

subsection \<open>Library primitives\<close>

type_synonym 'a junk = "nat \<Rightarrow> 'a"

text \<open>\<^verbatim>\<open>cl.array.empty(queue, n, dtype)\<close>.\<close>

definition cl_empty :: "'a junk \<Rightarrow> nat \<Rightarrow> 'a list" where
  "cl_empty j n = map j [0..<n]"

text \<open>\<^verbatim>\<open>cl.array.take(a, indices)\<close>: \<open>out[i] = a[indices[i]]\<close>.\<close>

definition cl_take :: "'a list \<Rightarrow> nat list \<Rightarrow> error + 'a list" where
  "cl_take a indices =
     (if list_all (\<lambda>i. i < length a) indices then Inr (map (\<lambda>i. a ! i) indices)
      else Inl DeviceFault)"

text \<open>
  The Python slice \<^verbatim>\<open>xs[:-k]\<close> for \<open>k \<ge> 0\<close>. Since \<open>-0 = 0\<close>, \<^verbatim>\<open>xs[:-0]\<close>
  is \<^verbatim>\<open>xs[:0]\<close>, the empty array.
\<close>

definition slice_to_neg :: "'a list \<Rightarrow> nat \<Rightarrow> 'a list" where
  "slice_to_neg xs k = (if k = 0 then [] else take (length xs - k) xs)"

text \<open>
  The start of the Python slice \<^verbatim>\<open>xs[-k:]\<close> of an array of \<open>n\<close> elements, for
  \<open>k \<ge> 0\<close>: \<^verbatim>\<open>xs[-0:]\<close> is \<^verbatim>\<open>xs[0:]\<close>, the whole array.
\<close>

definition slice_from_neg_start :: "nat \<Rightarrow> nat \<Rightarrow> nat" where
  "slice_from_neg_start n k = (if k = 0 then 0 else n - k)"

subsection \<open>DeviceArray\<close>

text \<open>
  \<open>data_a\<close> is \<^verbatim>\<open>_data\<close>, the allocated region, and \<open>length_a\<close> is
  \<^verbatim>\<open>length\<close>. \<^verbatim>\<open>alloc\<close> is assigned together with \<^verbatim>\<open>_data\<close> (in
  \<^verbatim>\<open>set_data\<close> and \<^verbatim>\<open>reserve\<close>) and always is its size; \<^verbatim>\<open>array\<close> is
  the view \<^verbatim>\<open>_data[:length]\<close>, refreshed by \<^verbatim>\<open>_update_array_ref\<close> after every
  change of either. Both are therefore functions of the record.
\<close>

record 'a DeviceArray =
  data_a :: "'a list"
  length_a :: nat

definition alloc :: "'a DeviceArray \<Rightarrow> nat" where
  "alloc a = length (data_a a)"

definition array :: "'a DeviceArray \<Rightarrow> 'a list" where
  "array a = take (length_a a) (data_a a)"

text \<open>\<^verbatim>\<open>DeviceArray(dtype, n)\<close>: sixteen slots are allocated when \<open>n = 0\<close>.\<close>

definition DeviceArray_init :: "'a junk \<Rightarrow> nat \<Rightarrow> 'a DeviceArray" where
  "DeviceArray_init j n =
     \<lparr>data_a = cl_empty j (if n = 0 then 16 else n), length_a = n\<rparr>"

definition set_data :: "'a DeviceArray \<Rightarrow> 'a list \<Rightarrow> 'a DeviceArray" where
  "set_data a d = a\<lparr>data_a := d, length_a := length d\<rparr>"

text \<open>
  \<^verbatim>\<open>reserve\<close>: a new region of \<open>sz\<close> slots (the argument \<^verbatim>\<open>size\<close>) whose first \<open>alloc\<close> slots are
  the old region.
\<close>

definition reserve :: "'a junk \<Rightarrow> 'a DeviceArray \<Rightarrow> nat \<Rightarrow> 'a DeviceArray" where
  "reserve j a sz =
     (if sz > alloc a
      then a\<lparr>data_a := data_a a @ drop (alloc a) (cl_empty j sz)\<rparr>
      else a)"

definition resize :: "'a junk \<Rightarrow> 'a DeviceArray \<Rightarrow> nat \<Rightarrow> 'a DeviceArray" where
  "resize j a sz = (reserve j a sz)\<lparr>length_a := sz\<rparr>"

text \<open>\<^verbatim>\<open>copy\<close>: a new buffer holding a copy of the view \<^verbatim>\<open>array\<close>.\<close>

definition copy :: "'a DeviceArray \<Rightarrow> 'a DeviceArray" where
  "copy a = \<lparr>data_a = array a, length_a = length (array a)\<rparr>"

text \<open>\<^verbatim>\<open>fill\<close>: \<^verbatim>\<open>self.array.fill(value)\<close> writes through the view.\<close>

definition fill :: "'a DeviceArray \<Rightarrow> 'a \<Rightarrow> 'a DeviceArray" where
  "fill a v =
     a\<lparr>data_a := replicate (length (array a)) v @ drop (length (array a)) (data_a a)\<rparr>"

text \<open>
  \<^verbatim>\<open>append\<close>. \<^verbatim>\<open>self._data[self.length] = value\<close> raises \<^verbatim>\<open>IndexError\<close>
  when the index is not below the size of \<^verbatim>\<open>_data\<close>.
\<close>

definition append_da :: "'a junk \<Rightarrow> 'a DeviceArray \<Rightarrow> 'a \<Rightarrow> 'a DeviceArray res" where
  "append_da j a v =
     (let a1 = (if length_a a \<ge> alloc a then reserve j a (2 * length_a a) else a)
      in if length_a a1 < alloc a1
         then Inr (a1\<lparr>data_a := (data_a a1)[length_a a1 := v],
                      length_a := length_a a1 + 1\<rparr>)
         else Inl (IndexError, a1))"

text \<open>
  \<^verbatim>\<open>extend\<close>. \<^verbatim>\<open>self._data[-len(cl_arr):] = cl_arr\<close> assigns to the last
  \<open>len(cl_arr)\<close> slots of the allocated region; an assignment between arrays of
  different shapes raises \<^verbatim>\<open>ValueError\<close>.
\<close>

definition extend_da :: "'a junk \<Rightarrow> 'a DeviceArray \<Rightarrow> 'a list \<Rightarrow> 'a DeviceArray res" where
  "extend_da j a cl_arr =
     (let k = length cl_arr;
          a1 = (if length_a a + k > alloc a then reserve j a (length_a a + k) else a);
          start = slice_from_neg_start (alloc a1) k
      in if alloc a1 - start \<noteq> k then Inl (ValueError, a1)
         else Inr (a1\<lparr>data_a := take start (data_a a1) @ cl_arr,
                      length_a := length_a a1 + k\<rparr>))"

text \<open>
  The kernel \<^verbatim>\<open>fill_if_remove_knl\<close>, one work-item per entry of \<^verbatim>\<open>indices\<close>:
  \<^verbatim>\<open>if_remove[indices[i]] = 1\<close>.
\<close>

fun fill_if_remove_knl :: "nat list \<Rightarrow> int list \<Rightarrow> error + int list" where
  "fill_if_remove_knl [] if_remove = Inr if_remove"
| "fill_if_remove_knl (ix # indices) if_remove =
     (if ix < length if_remove then fill_if_remove_knl indices (if_remove[ix := 1])
      else Inl DeviceFault)"

text \<open>
  The scan kernel \<^verbatim>\<open>remove_knl\<close> (a \<^verbatim>\<open>GenericScanKernel\<close> with input
  \<^verbatim>\<open>if_remove[i]\<close> and operator \<open>a+b\<close>): at work-item \<open>i\<close>, \<^verbatim>\<open>item\<close> is the
  inclusive sum of \<^verbatim>\<open>if_remove[0..i]\<close>, and the output statement is
  \<^verbatim>\<open>if(!if_remove[i]) dest[i - item] = value(i)\<close>. The list argument is what is left
  of \<^verbatim>\<open>if_remove\<close> from \<open>i\<close> on, \<open>prev\<close> is the sum before \<open>i\<close>, and
  \<open>value i\<close> is \<open>None\<close> when reading it leaves its array.
\<close>

fun remove_knl ::
  "nat \<Rightarrow> int \<Rightarrow> int list \<Rightarrow> (nat \<Rightarrow> 'a option) \<Rightarrow> 'a list \<Rightarrow> error + 'a list" where
  "remove_knl i prev [] val dest = Inr dest"
| "remove_knl i prev (r # if_remove) val dest =
     (let item = prev + r in
      if r = 0 then
        (case val i of
           None \<Rightarrow> Inl DeviceFault
         | Some v \<Rightarrow>
             if 0 \<le> int i - item \<and> nat (int i - item) < length dest
             then remove_knl (Suc i) item if_remove val (dest[nat (int i - item) := v])
             else Inl DeviceFault)
      else remove_knl (Suc i) item if_remove val dest)"

definition read_at :: "'a list \<Rightarrow> nat \<Rightarrow> 'a option" where
  "read_at xs i = (if i < length xs then Some (xs ! i) else None)"

text \<open>\<^verbatim>\<open>remove\<close> (the flag \<^verbatim>\<open>input_sorted\<close> is not used by the source).\<close>

definition remove_da :: "int junk \<Rightarrow> 'a DeviceArray \<Rightarrow> nat list \<Rightarrow> 'a DeviceArray res" where
  "remove_da j a indices =
     (if length indices > length_a a then Inl (ValueError, a)
      else
        let if_remove = fill (DeviceArray_init j (length_a a)) 0;
            new_array = copy a
        in with_value (fill_if_remove_knl indices (array if_remove)) a (\<lambda>if_remove'.
           with_value (remove_knl 0 0 if_remove' (read_at (array a)) (array new_array)) a
             (\<lambda>new_array'. Inr (set_data a (slice_to_neg new_array' (length indices))))))"

definition align_da :: "'a DeviceArray \<Rightarrow> nat list \<Rightarrow> 'a DeviceArray res" where
  "align_da a indices =
     with_value (cl_take (array a) indices) a (\<lambda>d. Inr (set_data a d))"

definition squeeze :: "'a DeviceArray \<Rightarrow> 'a DeviceArray" where
  "squeeze a = set_data a (take (length_a a) (data_a a))"

text \<open>
  The slice assignments of the source through the view \<^verbatim>\<open>array\<close>:
  \<^verbatim>\<open>arr.array[start:] = value\<close> with a scalar, \<^verbatim>\<open>arr.array[start:] = values\<close>
  with an array (\<^verbatim>\<open>ValueError\<close> when the shapes differ), and
  \<^verbatim>\<open>arr.array[:stop] = values\<close>.
\<close>

definition fill_from :: "'a DeviceArray \<Rightarrow> nat \<Rightarrow> 'a \<Rightarrow> 'a DeviceArray" where
  "fill_from a start v =
     (let n = length (array a)
      in a\<lparr>data_a := take start (array a) @ replicate (n - start) v @ drop n (data_a a)\<rparr>)"

definition assign_from :: "'a DeviceArray \<Rightarrow> nat \<Rightarrow> 'a list \<Rightarrow> 'a DeviceArray res" where
  "assign_from a start values =
     (let n = length (array a)
      in if n - start \<noteq> length values then Inl (ValueError, a)
         else Inr (a\<lparr>data_a := take start (array a) @ values @ drop n (data_a a)\<rparr>))"

definition assign_upto :: "'a DeviceArray \<Rightarrow> nat \<Rightarrow> 'a list \<Rightarrow> 'a DeviceArray res" where
  "assign_upto a stop values =
     (let n = length (array a)
      in if min stop n \<noteq> length values then Inl (ValueError, a)
         else Inr (a\<lparr>data_a := values @ drop (min stop n) (data_a a)\<rparr>))"

text \<open>\<^verbatim>\<open>copy_values\<close>: \<^verbatim>\<open>dest[:len(indices)] = cl.array.take(self.array, indices)\<close>.\<close>

definition copy_values ::
  "'a DeviceArray \<Rightarrow> nat list \<Rightarrow> 'a DeviceArray \<Rightarrow> 'a DeviceArray res" where
  "copy_values a indices dest =
     with_value (cl_take (array a) indices) dest (\<lambda>vals.
       assign_upto dest (length indices) vals)"

subsection \<open>The host particle container\<close>

text \<open>
  Modelled from the spec: \<^verbatim>\<open>ParticleArray\<close> (\<^verbatim>\<open>pysph/base/particle_array\<close>) is
  not among the sources. Section 6 of the specification says what it supplies: per
  property a default value, "used to fill newly created particle slots", and the set of
  output properties; the store also copies its name. \<open>add_property\<close> registers the
  default of a property.
\<close>

record ParticleArray =
  default_values :: "string \<rightharpoonup> int"
  name_pa :: string
  output_property_arrays :: "string list"

definition add_property :: "ParticleArray \<Rightarrow> string \<Rightarrow> int \<Rightarrow> ParticleArray" where
  "add_property pa prop_name dflt =
     pa\<lparr>default_values := (default_values pa)(prop_name \<mapsto> dflt)\<rparr>"

subsection \<open>DeviceHelper\<close>

text \<open>
  \<open>data_h\<close> is the dictionary \<^verbatim>\<open>_data\<close>, \<open>particle_array\<close> is
  \<^verbatim>\<open>_particle_array\<close>. The attribute \<^verbatim>\<open>num_real_particles\<close> does not exist
  before the first \<^verbatim>\<open>align_particles\<close>. The attributes that \<^verbatim>\<open>setattr\<close> keeps
  per name hold the view \<^verbatim>\<open>_data[name].array\<close>; every method that changes a buffer
  refreshes them, so \<^verbatim>\<open>self.tag\<close> is read as \<^verbatim>\<open>_data['tag'].array\<close>. Two names
  never share one buffer object in the methods below, so the dictionary maps names to
  buffer values.
\<close>

record DeviceHelper =
  particle_array :: ParticleArray
  data_h :: "string \<rightharpoonup> int DeviceArray"
  properties :: "string list"
  constants :: "string list"
  num_real_particles :: "nat option"

text \<open>\<^verbatim>\<open>self._data[prop].m(...)\<close> for a mutating buffer method \<open>m\<close>.\<close>

definition on_array ::
  "string \<Rightarrow> (int DeviceArray \<Rightarrow> int DeviceArray res) \<Rightarrow> DeviceHelper \<Rightarrow> DeviceHelper res"
  where
  "on_array prop m s =
     (case data_h s prop of
        None \<Rightarrow> Inl (KeyError prop, s)
      | Some a \<Rightarrow>
          (case m a of
             Inl (e, a') \<Rightarrow> Inl (e, s\<lparr>data_h := (data_h s)(prop \<mapsto> a')\<rparr>)
           | Inr a' \<Rightarrow> Inr (s\<lparr>data_h := (data_h s)(prop \<mapsto> a')\<rparr>)))"

definition check_property :: "DeviceHelper \<Rightarrow> string \<Rightarrow> DeviceHelper res" where
  "check_property s prop =
     (if prop \<in> set (properties s) then Inr s else Inl (AttributeError prop, s))"

text \<open>\<^verbatim>\<open>get_number_of_particles()\<close> with \<^verbatim>\<open>real=False\<close>.\<close>

definition get_number_of_particles :: "DeviceHelper \<Rightarrow> error + nat" where
  "get_number_of_particles s =
     (case properties s of
        [] \<Rightarrow> Inr 0
      | prop # _ \<Rightarrow>
          (case data_h s prop of
             None \<Rightarrow> Inl (KeyError prop)
           | Some prop0 \<Rightarrow> Inr (length (array prop0))))"

definition align_dh :: "DeviceHelper \<Rightarrow> nat list \<Rightarrow> DeviceHelper res" where
  "align_dh s indices =
     for_each (\<lambda>prop. on_array prop (\<lambda>a. align_da a indices)) (properties s) s"

definition update_prop :: "DeviceHelper \<Rightarrow> string \<Rightarrow> int DeviceArray \<Rightarrow> DeviceHelper" where
  "update_prop s nm dev_array =
     s\<lparr>data_h := (data_h s)(nm \<mapsto> dev_array),
       properties := (if nm \<in> set (properties s) then properties s
                      else properties s @ [nm])\<rparr>"

definition update_const :: "DeviceHelper \<Rightarrow> string \<Rightarrow> int DeviceArray \<Rightarrow> DeviceHelper" where
  "update_const s nm dev_array =
     s\<lparr>data_h := (data_h s)(nm \<mapsto> dev_array),
       constants := (if nm \<in> set (constants s) then constants s
                     else constants s @ [nm])\<rparr>"

text \<open>
  \<^verbatim>\<open>get_device_array\<close> returns \<^verbatim>\<open>None\<close> for a name that is neither a property
  nor a constant.
\<close>

definition get_device_array :: "DeviceHelper \<Rightarrow> string \<Rightarrow> error + int DeviceArray option"
  where
  "get_device_array s prop =
     (if prop \<in> set (properties s) \<or> prop \<in> set (constants s)
      then (case data_h s prop of None \<Rightarrow> Inl (KeyError prop) | Some a \<Rightarrow> Inr (Some a))
      else Inr None)"

text \<open>\<^verbatim>\<open>source.array\<close> for the result of \<^verbatim>\<open>get_device_array\<close>.\<close>

definition array_of_source :: "error + int DeviceArray option \<Rightarrow> error + int list" where
  "array_of_source r =
     (case r of
        Inl e \<Rightarrow> Inl e
      | Inr None \<Rightarrow> Inl (AttributeError ''array'')
      | Inr (Some a) \<Rightarrow> Inr (array a))"

text \<open>
  The radix sort of \<^verbatim>\<open>align_particles\<close>: \<^verbatim>\<open>indices\<close> is sorted by the key
  \<^verbatim>\<open>tags[i]\<close> of its position \<open>i\<close>, with \<^verbatim>\<open>key_bits=2\<close>: one stable pass on
  the two low bits of the tag, read as an unsigned integer.
\<close>

definition radix_sort :: "nat list \<Rightarrow> int list \<Rightarrow> error + nat list" where
  "radix_sort indices tags =
     (if length indices \<le> length tags
      then Inr (map (\<lambda>i. indices ! i)
                  (sort_key (\<lambda>i. tags ! i mod 4) [0..<length indices]))
      else Inl DeviceFault)"

text \<open>
  \<^verbatim>\<open>NUM_REAL_PARTICLES_KNL\<close> at work-item \<open>i\<close>; the second argument is the one
  slot of \<^verbatim>\<open>num_real_particles\<close>. When several work-items write, the device keeps one
  of the values; the model keeps the one of the highest \<open>i\<close>.
\<close>

definition NUM_REAL_PARTICLES_KNL :: "int list \<Rightarrow> nat \<Rightarrow> nat \<Rightarrow> nat" where
  "NUM_REAL_PARTICLES_KNL tag_array i nrp =
     (if i \<noteq> 0 \<and> tag_array ! i \<noteq> tag_array ! (i - 1) \<and> tag_array ! (i - 1) = 0
      then i else nrp)"

definition get_num_real_particles :: "int list \<Rightarrow> nat \<Rightarrow> nat" where
  "get_num_real_particles tag_array nrp =
     fold (NUM_REAL_PARTICLES_KNL tag_array) [0..<length tag_array] nrp"

definition align_particles :: "DeviceHelper \<Rightarrow> DeviceHelper res" where
  "align_particles s =
     (case data_h s ''tag'' of
        None \<Rightarrow> Inl (KeyError ''tag'', s)
      | Some tag_arr \<Rightarrow>
          with_value (get_number_of_particles s) s (\<lambda>num_particles.
          with_value (radix_sort [0..<num_particles] (array tag_arr)) s (\<lambda>sorted_indices.
          and_then (align_dh s sorted_indices) (\<lambda>s1.
            (case data_h s1 ''tag'' of
               None \<Rightarrow> Inl (KeyError ''tag'', s1)
             | Some tag_arr1 \<Rightarrow>
                 Inr (s1\<lparr>num_real_particles :=
                            Some (get_num_real_particles (array tag_arr1) 0)\<rparr>))))))"

text \<open>A fresh \<^verbatim>\<open>uint32\<close> array reads the unsigned 32-bit values of the junk.\<close>

definition as_uint32 :: "int \<Rightarrow> nat" where
  "as_uint32 v = nat (v mod 4294967296)"

definition remove_particles :: "int junk \<Rightarrow> DeviceHelper \<Rightarrow> nat list \<Rightarrow> DeviceHelper res" where
  "remove_particles j s indices =
     with_value (get_number_of_particles s) s (\<lambda>n.
       if length indices > n then Inl (ValueError, s)
       else
         let if_remove = fill (DeviceArray_init j n) 0;
             new_indices = DeviceArray_init (\<lambda>i. as_uint32 (j i)) n
         in with_value (fill_if_remove_knl indices (array if_remove)) s (\<lambda>if_remove'.
            with_value (remove_knl 0 0 if_remove' (\<lambda>i. Some i) (array new_indices)) s
              (\<lambda>new_indices'.
            and_then
              (for_each
                 (\<lambda>prop. on_array prop
                    (\<lambda>a. align_da a (slice_to_neg new_indices' (length indices))))
                 (properties s) s)
              (\<lambda>s1. if length indices > 0 then align_particles s1 else Inr s1))))"

text \<open>
  \<^verbatim>\<open>remove_tagged_particles\<close>. The kernel \<^verbatim>\<open>REMOVE_INDICES_KNL\<close> collects the
  positions whose tag is \<open>tag\<close> through an atomic counter, in an order the device
  chooses; the model lists them in increasing order.
\<close>

definition remove_tagged_particles :: "int junk \<Rightarrow> DeviceHelper \<Rightarrow> int \<Rightarrow> DeviceHelper res"
  where
  "remove_tagged_particles j s tag =
     (case data_h s ''tag'' of
        None \<Rightarrow> Inl (AttributeError ''tag'', s)
      | Some tag_buf \<Rightarrow>
          let tag_array = array tag_buf;
              num_indices = length (filter (\<lambda>t. t = tag) tag_array)
          in if num_indices = 0 then Inr s
             else remove_particles j s
                    (filter (\<lambda>i. tag_array ! i = tag) [0..<length tag_array]))"

text \<open>
  \<^verbatim>\<open>add_particles(**particle_props)\<close>: the keyword dictionary is the list of its
  items in insertion order.
\<close>

definition add_particles_body ::
  "int junk \<Rightarrow> (string \<times> int list) list \<Rightarrow> nat \<Rightarrow> nat \<Rightarrow> string \<Rightarrow> DeviceHelper \<Rightarrow>
   DeviceHelper res" where
  "add_particles_body j particle_props old_num_particles new_num_particles prop s =
     (case data_h s prop of
        None \<Rightarrow> Inl (KeyError prop, s)
      | Some arr \<Rightarrow>
          (case map_of particle_props prop of
             Some s_arr \<Rightarrow>
               (case extend_da j arr s_arr of
                  Inl (e, arr') \<Rightarrow> Inl (e, s\<lparr>data_h := (data_h s)(prop \<mapsto> arr')\<rparr>)
                | Inr arr' \<Rightarrow> Inr (update_prop s prop arr'))
           | None \<Rightarrow>
               (let arr1 = resize j arr new_num_particles
                in case default_values (particle_array s) prop of
                     None \<Rightarrow> Inl (KeyError prop, s\<lparr>data_h := (data_h s)(prop \<mapsto> arr1)\<rparr>)
                   | Some dflt \<Rightarrow>
                       Inr (update_prop s prop (fill_from arr1 old_num_particles dflt)))))"

definition add_particles ::
  "int junk \<Rightarrow> DeviceHelper \<Rightarrow> (string \<times> int list) list \<Rightarrow> DeviceHelper res" where
  "add_particles j s particle_props =
     (case particle_props of
        [] \<Rightarrow> Inr s
      | (prop0, values0) # _ \<Rightarrow>
          and_then (for_each (\<lambda>prop s'. check_property s' prop) (map fst particle_props) s)
            (\<lambda>s0.
          let num_extra_particles = length values0
          in with_value (get_number_of_particles s0) s0 (\<lambda>old_num_particles.
             let new_num_particles = num_extra_particles + old_num_particles
             in and_then
                  (for_each
                     (add_particles_body j particle_props old_num_particles new_num_particles)
                     (properties s0) s0)
                  (\<lambda>s1. if num_extra_particles > 0 then align_particles s1 else Inr s1))))"

text \<open>\<^verbatim>\<open>DeviceHelper.extend(num_particles)\<close>.\<close>

definition extend_dh_body :: "int junk \<Rightarrow> nat \<Rightarrow> nat \<Rightarrow> string \<Rightarrow> DeviceHelper \<Rightarrow> DeviceHelper res"
  where
  "extend_dh_body j old_size new_size prop s =
     (case data_h s prop of
        None \<Rightarrow> Inl (KeyError prop, s)
      | Some arr \<Rightarrow>
          (let arr1 = resize j arr new_size
           in case default_values (particle_array s) prop of
                None \<Rightarrow> Inl (KeyError prop, s\<lparr>data_h := (data_h s)(prop \<mapsto> arr1)\<rparr>)
              | Some dflt \<Rightarrow> Inr (update_prop s prop (fill_from arr1 old_size dflt))))"

definition extend_dh :: "int junk \<Rightarrow> DeviceHelper \<Rightarrow> int \<Rightarrow> DeviceHelper res" where
  "extend_dh j s num_particles =
     (if num_particles \<le> 0 then Inr s
      else with_value (get_number_of_particles s) s (\<lambda>old_size.
             let new_size = old_size + nat num_particles
             in for_each (extend_dh_body j old_size new_size) (properties s) s))"

text \<open>
  \<^verbatim>\<open>append_parray(parray)\<close>. The argument \<open>gpu\<close> is \<^verbatim>\<open>parray.gpu\<close>, the
  store of the other particle array; the branch that first builds it from the host
  arrays when it is \<^verbatim>\<open>None\<close> needs the host container and is left out.
\<close>

definition append_parray_prop ::
  "int junk \<Rightarrow> DeviceHelper \<Rightarrow> nat \<Rightarrow> nat \<Rightarrow> string \<Rightarrow> DeviceHelper \<Rightarrow> DeviceHelper res"
  where
  "append_parray_prop j gpu old_num_particles new_num_particles prop_name s =
     (if prop_name \<in> set (properties s) then
        (case data_h s prop_name of
           None \<Rightarrow> Inl (KeyError prop_name, s)
         | Some arr \<Rightarrow>
             with_value (array_of_source (get_device_array gpu prop_name)) s (\<lambda>source.
               on_array prop_name (\<lambda>a. assign_from a old_num_particles source) s))
      else
        (case data_h s prop_name of
           None \<Rightarrow> Inl (KeyError prop_name, s)
         | Some dtype_of \<Rightarrow>
             (case default_values (particle_array gpu) prop_name of
                None \<Rightarrow> Inl (KeyError prop_name, s)
              | Some dflt \<Rightarrow>
                  (let arr = fill (DeviceArray_init j new_num_particles) dflt;
                       s1 = update_prop s prop_name arr
                   in with_value (array_of_source (get_device_array gpu prop_name)) s1
                        (\<lambda>source.
                           on_array prop_name
                             (\<lambda>a. assign_from a old_num_particles source) s1)))))"

definition append_parray_const :: "DeviceHelper \<Rightarrow> string \<Rightarrow> DeviceHelper \<Rightarrow> DeviceHelper res"
  where
  "append_parray_const gpu const s =
     (if const \<notin> set (constants s) then
        (case get_device_array gpu const of
           Inl e \<Rightarrow> Inl (e, s)
         | Inr None \<Rightarrow> Inl (AttributeError ''copy'', s)
         | Inr (Some arr) \<Rightarrow> Inr (update_const s const (copy arr)))
      else Inr s)"

definition append_parray :: "int junk \<Rightarrow> DeviceHelper \<Rightarrow> DeviceHelper \<Rightarrow> DeviceHelper res"
  where
  "append_parray j s gpu =
     with_value (get_number_of_particles gpu) s (\<lambda>num_extra_particles.
       if num_extra_particles = 0 then Inr s
       else
         with_value (get_number_of_particles s) s (\<lambda>old_num_particles.
           let new_num_particles = num_extra_particles + old_num_particles
           in and_then (extend_dh j s (int num_extra_particles)) (\<lambda>s1.
              and_then
                (for_each (append_parray_prop j gpu old_num_particles new_num_particles)
                   (properties gpu) s1) (\<lambda>s2.
              and_then (for_each (append_parray_const gpu) (constants gpu) s2) (\<lambda>s3.
                if num_extra_particles > 0 then align_particles s3 else Inr s3)))))"

text \<open>
  \<^verbatim>\<open>extract_particles(indices, props)\<close>. \<open>result_array\<close> is the store of a new,
  empty \<^verbatim>\<open>ParticleArray()\<close>, whose constructor is not among the sources: it is a
  parameter. The method changes nothing of \<^verbatim>\<open>self\<close> and returns the new store, so
  an exception leaves no state behind. \<^verbatim>\<open>set_name\<close> and \<^verbatim>\<open>set_output_arrays\<close>
  store their argument; the order of the list built from a Python set is the order of
  the source's output properties here.
\<close>

definition extract_prop ::
  "int junk \<Rightarrow> DeviceHelper \<Rightarrow> nat list \<Rightarrow> string \<Rightarrow> DeviceHelper \<Rightarrow> DeviceHelper res"
  where
  "extract_prop j s indices prop_name r =
     (case data_h s prop_name of
        None \<Rightarrow> Inl (KeyError prop_name, r)
      | Some src_arr \<Rightarrow>
          (case copy_values src_arr indices (DeviceArray_init j (length indices)) of
             Inl (e, d) \<Rightarrow> Inl (e, r)
           | Inr dst_arr \<Rightarrow>
               (case default_values (particle_array s) prop_name of
                  None \<Rightarrow> Inl (KeyError prop_name, r)
                | Some prop_default \<Rightarrow>
                    Inr (update_prop
                           (r\<lparr>particle_array :=
                                add_property (particle_array r) prop_name prop_default\<rparr>)
                           prop_name dst_arr))))"

definition extract_const :: "DeviceHelper \<Rightarrow> string \<Rightarrow> DeviceHelper \<Rightarrow> DeviceHelper res" where
  "extract_const s const r =
     (case data_h s const of
        None \<Rightarrow> Inl (KeyError const, r)
      | Some a \<Rightarrow> Inr (update_const r const (copy a)))"

definition extract_particles ::
  "int junk \<Rightarrow> DeviceHelper \<Rightarrow> DeviceHelper \<Rightarrow> nat list \<Rightarrow> string list option \<Rightarrow>
   error + DeviceHelper" where
  "extract_particles j result_array s indices props =
     (let prop_names = (case props of None \<Rightarrow> properties s | Some ps \<Rightarrow> ps)
      in if length indices = 0 then Inr result_array
         else
           (case and_then (for_each (extract_prop j s indices) prop_names result_array)
                   (\<lambda>r1.
                 and_then (for_each (extract_const s) (constants s) r1) (\<lambda>r2.
                 and_then (align_particles r2) (\<lambda>r3.
                   Inr (r3\<lparr>particle_array := (particle_array r3)
                             \<lparr>name_pa := name_pa (particle_array s),
                              output_property_arrays :=
                                (case props of
                                   None \<Rightarrow> output_property_arrays (particle_array s)
                                 | Some ps \<Rightarrow>
                                     filter (\<lambda>p. p \<in> set ps)
                                       (output_property_arrays (particle_array s)))\<rparr>\<rparr>))))
            of Inl (e, r) \<Rightarrow> Inl e
             | Inr r \<Rightarrow> Inr r))"

subsection \<open>Sequences of structural operations\<close>

datatype structural_op =
    Add_particles "(string \<times> int list) list"
  | Remove_particles "nat list"
  | Remove_tagged_particles int
  | Extend int
  | Append_parray DeviceHelper

fun exec :: "int junk \<Rightarrow> DeviceHelper \<Rightarrow> structural_op \<Rightarrow> DeviceHelper res" where
  "exec j s (Add_particles particle_props) = add_particles j s particle_props"
| "exec j s (Remove_particles indices) = remove_particles j s indices"
| "exec j s (Remove_tagged_particles tag) = remove_tagged_particles j s tag"
| "exec j s (Extend num_particles) = extend_dh j s num_particles"
| "exec j s (Append_parray gpu) = append_parray j s gpu"

text \<open>
  A caller runs the operations one after the other on the same store; where one raises,
  the store stays as the raising call left it and the caller goes on.
\<close>

fun run :: "int junk \<Rightarrow> DeviceHelper \<Rightarrow> structural_op list \<Rightarrow> DeviceHelper" where
  "run j s [] = s"
| "run j s (op # ops) = run j (state_of (exec j s op)) ops"

text \<open>
  \<open>same_length s n\<close>: every property of the store has a buffer, of length \<open>n\<close>
  within its allocated region.
\<close>

definition has_length :: "DeviceHelper \<Rightarrow> nat \<Rightarrow> string \<Rightarrow> bool" where
  "has_length s n prop =
     (case data_h s prop of None \<Rightarrow> False | Some a \<Rightarrow> length_a a = n \<and> n \<le> alloc a)"

definition same_length :: "DeviceHelper \<Rightarrow> nat \<Rightarrow> bool" where
  "same_length s n = list_all (has_length s n) (properties s)"

definition consistent :: "DeviceHelper \<Rightarrow> bool" where
  "consistent s = (distinct (properties s) \<and> (\<exists>n. same_length s n))"

definition has_defaults :: "DeviceHelper \<Rightarrow> bool" where
  "has_defaults s =
     list_all (\<lambda>prop. default_values (particle_array s) prop \<noteq> None) (properties s)"

text \<open>
  The documented preconditions of the operations: the buffers given to
  \<^verbatim>\<open>add_particles\<close> have one length; the indices given to \<^verbatim>\<open>remove_particles\<close>
  are positions of particles; the store merged by \<^verbatim>\<open>append_parray\<close> is
  itself consistent, and no constant of it bears the name of a property (the class
  "assumes that the names of constants and properties do not clash"). The operations
  that fill new slots need the default value of every property, and
  \<^verbatim>\<open>remove_tagged_particles\<close> reads the property \<^verbatim>\<open>tag\<close>.
\<close>

definition number_of_particles :: "DeviceHelper \<Rightarrow> nat" where
  "number_of_particles s = (case get_number_of_particles s of Inl e \<Rightarrow> 0 | Inr n \<Rightarrow> n)"

fun precondition :: "DeviceHelper \<Rightarrow> structural_op \<Rightarrow> bool" where
  "precondition s (Add_particles particle_props) =
     (has_defaults s \<and>
      list_all (\<lambda>kv. length (snd kv) = length (snd (hd particle_props))) particle_props)"
| "precondition s (Remove_particles indices) =
     list_all (\<lambda>i. i < number_of_particles s) indices"
| "precondition s (Remove_tagged_particles tag) = (''tag'' \<in> set (properties s))"
| "precondition s (Extend num_particles) = has_defaults s"
| "precondition s (Append_parray gpu) =
     (has_defaults s \<and> consistent gpu \<and>
      list_all (\<lambda>c. c \<notin> set (properties s) \<and> c \<notin> set (properties gpu)) (constants gpu))"

fun preconditions :: "int junk \<Rightarrow> DeviceHelper \<Rightarrow> structural_op list \<Rightarrow> bool" where
  "preconditions j s [] = True"
| "preconditions j s (op # ops) =
     (precondition s op \<and> preconditions j (state_of (exec j s op)) ops)"

subsection \<open>Notions used to state results\<close>

text \<open>The store in which \<open>f p\<close> has been applied to the buffer of each name \<open>p\<close> of \<open>ps\<close>.\<close>

definition map_props ::
  "(string \<Rightarrow> int DeviceArray \<Rightarrow> int DeviceArray) \<Rightarrow> string list \<Rightarrow> DeviceHelper \<Rightarrow>
   DeviceHelper" where
  "map_props f ps s =
     s\<lparr>data_h := (\<lambda>q. if q \<in> set ps then map_option (f q) (data_h s q) else data_h s q)\<rparr>"

text \<open>The positions, counted from \<open>i\<close>, at which a mask holds 0: the ones that stay.\<close>

fun kept :: "nat \<Rightarrow> int list \<Rightarrow> nat list" where
  "kept i [] = []"
| "kept i (r # rs) = (if r = 0 then i # kept (Suc i) rs else kept (Suc i) rs)"

text \<open>The positions below \<open>n\<close> that are not among \<open>indices\<close>, in increasing order.\<close>

definition survivors :: "nat \<Rightarrow> nat list \<Rightarrow> nat list" where
  "survivors n indices = filter (\<lambda>p. p \<notin> set indices) [0..<n]"

text \<open>\<^verbatim>\<open>cl.array.take\<close> applied to the view of a buffer, stored by \<^verbatim>\<open>set_data\<close>.\<close>

definition gathered :: "nat list \<Rightarrow> 'a DeviceArray \<Rightarrow> 'a DeviceArray" where
  "gathered indices a = set_data a (map (\<lambda>i. array a ! i) indices)"

text \<open>
  The buffer of the property \<open>p\<close> after its turn in the loop of
  \<^verbatim>\<open>add_particles\<close>: extended by the values given for it, or resized and filled
  with its default value.
\<close>

definition grown ::
  "int junk \<Rightarrow> DeviceHelper \<Rightarrow> (string \<times> int list) list \<Rightarrow> nat \<Rightarrow> nat \<Rightarrow> string \<Rightarrow>
   int DeviceArray \<Rightarrow> int DeviceArray" where
  "grown j s particle_props old_num_particles new_num_particles p a =
     (case map_of particle_props p of
        Some s_arr \<Rightarrow> state_of (extend_da j a s_arr)
      | None \<Rightarrow>
          (case default_values (particle_array s) p of
             None \<Rightarrow> resize j a new_num_particles
           | Some dflt \<Rightarrow> fill_from (resize j a new_num_particles) old_num_particles dflt))"

text \<open>
  The values \<^verbatim>\<open>add_particles\<close> adds to the property \<open>p\<close> for \<open>k\<close> new
  particles: the ones given for it, or \<open>k\<close> times its default value.
\<close>

definition new_values ::
  "DeviceHelper \<Rightarrow> (string \<times> int list) list \<Rightarrow> nat \<Rightarrow> string \<Rightarrow> int list" where
  "new_values s particle_props k p =
     (case map_of particle_props p of
        Some s_arr \<Rightarrow> s_arr
      | None \<Rightarrow>
          (case default_values (particle_array s) p of
             None \<Rightarrow> []
           | Some dflt \<Rightarrow> replicate k dflt))"

text \<open>
  The order in which \<^verbatim>\<open>align_particles\<close> puts the particles of a tag array: the
  positions, sorted stably by the two low bits of their tag.
\<close>

definition partition_order :: "int list \<Rightarrow> nat list" where
  "partition_order tags = sort_key (\<lambda>i. tags ! i mod 4) [0..<length tags]"

subsection \<open>Example stores\<close>

definition host :: "(string \<times> int) list \<Rightarrow> ParticleArray" where
  "host defaults =
     \<lparr>default_values = map_of defaults, name_pa = ''fluid'', output_property_arrays = []\<rparr>"

definition buffer_of :: "int list \<Rightarrow> int DeviceArray" where
  "buffer_of xs = \<lparr>data_a = xs, length_a = length xs\<rparr>"

text \<open>A store of two real particles that has the one property \<^verbatim>\<open>tag\<close>.\<close>

definition store_real :: DeviceHelper where
  "store_real =
     \<lparr>particle_array = host [(''tag'', 0)],
      data_h = [''tag'' \<mapsto> buffer_of [0, 0]],
      properties = [''tag''], constants = [], num_real_particles = None\<rparr>"

text \<open>A store of one real particle, and one of one particle that also has \<^verbatim>\<open>x\<close>.\<close>

definition store_one :: DeviceHelper where
  "store_one =
     \<lparr>particle_array = host [(''tag'', 0)],
      data_h = [''tag'' \<mapsto> buffer_of [0]],
      properties = [''tag''], constants = [], num_real_particles = None\<rparr>"

definition store_one_x :: DeviceHelper where
  "store_one_x =
     \<lparr>particle_array = host [(''tag'', 0), (''x'', 0)],
      data_h = [''tag'' \<mapsto> buffer_of [0], ''x'' \<mapsto> buffer_of [7]],
      properties = [''tag'', ''x''], constants = [], num_real_particles = None\<rparr>"

text \<open>
  Three real particles with the properties \<^verbatim>\<open>x\<close> and \<^verbatim>\<open>y\<close>; one ghost
  particle; two particles and a constant; and a store without properties.
\<close>

definition store_three :: DeviceHelper where
  "store_three =
     \<lparr>particle_array = host [(''tag'', 0), (''x'', 0), (''y'', 7)],
      data_h = [''tag'' \<mapsto> buffer_of [0, 0, 0], ''x'' \<mapsto> buffer_of [1, 2, 3],
                ''y'' \<mapsto> buffer_of [4, 5, 6]],
      properties = [''tag'', ''x'', ''y''], constants = [], num_real_particles = None\<rparr>"

definition store_ghost :: DeviceHelper where
  "store_ghost =
     \<lparr>particle_array = host [(''tag'', 0), (''x'', 0)],
      data_h = [''tag'' \<mapsto> buffer_of [1], ''x'' \<mapsto> buffer_of [5]],
      properties = [''tag'', ''x''], constants = [], num_real_particles = None\<rparr>"

definition store_const :: DeviceHelper where
  "store_const =
     \<lparr>particle_array = host [(''tag'', 0), (''x'', 0)],
      data_h = [''tag'' \<mapsto> buffer_of [0, 1], ''x'' \<mapsto> buffer_of [7, 8],
                ''c'' \<mapsto> buffer_of [3]],
      properties = [''tag'', ''x''], constants = [''c''], num_real_particles = None\<rparr>"

definition empty_store :: DeviceHelper where
  "empty_store =
     \<lparr>particle_array = host [], data_h = Map.empty, properties = [], constants = [],
      num_real_particles = None\<rparr>"

section \<open>Lemmas\<close>

subsection \<open>Buffers, results and loops\<close>

lemma length_cl_empty [simp]: "length (cl_empty j n) = n"
  by (simp add: cl_empty_def)

lemma length_array: "length (array a) = min (length_a a) (alloc a)"
  by (simp add: array_def alloc_def)

lemma length_array_le: "length_a a \<le> alloc a \<Longrightarrow> length (array a) = length_a a"
  by (simp add: length_array)

lemma alloc_reserve: "alloc (reserve j a sz) = max (alloc a) sz"
  by (simp add: reserve_def alloc_def)

lemma length_a_reserve [simp]: "length_a (reserve j a sz) = length_a a"
  by (simp add: reserve_def)

lemma alloc_resize: "alloc (resize j a sz) = max (alloc a) sz"
  by (simp add: resize_def alloc_def reserve_def)

lemma length_a_resize [simp]: "length_a (resize j a sz) = sz"
  by (simp add: resize_def)

lemma length_a_fill_from [simp]: "length_a (fill_from a start v) = length_a a"
  by (simp add: fill_from_def Let_def)

lemma alloc_fill_from [simp]: "alloc (fill_from a start v) = alloc a"
  by (auto simp: fill_from_def Let_def alloc_def array_def min_def)

lemma array_set_data [simp]: "array (set_data a d) = d"
  by (simp add: array_def set_data_def)

lemma length_a_set_data [simp]: "length_a (set_data a d) = length d"
  by (simp add: set_data_def)

lemma alloc_set_data [simp]: "alloc (set_data a d) = length d"
  by (simp add: set_data_def alloc_def)

lemma state_of_simps [simp]: "state_of (Inl (e, s)) = s" "state_of (Inr s) = s"
  by (simp_all add: state_of_def)

lemma raised_simps [simp]: "raised (Inl (e, s)) = Some e" "raised (Inr s) = None"
  by (simp_all add: raised_def)

lemma for_each_invariant:
  assumes "\<And>x t. x \<in> set xs \<Longrightarrow> P t \<Longrightarrow> P (state_of (body x t))" and "P s"
  shows "P (state_of (for_each body xs s))"
  using assms
proof (induction xs arbitrary: s)
  case Nil
  then show ?case by simp
next
  case (Cons x xs)
  have step: "P (state_of (body x s))" using Cons.prems by simp
  show ?case
  proof (cases "body x s")
    case (Inl es)
    then show ?thesis using step by (cases es) simp
  next
    case (Inr s')
    then have "P s'" using step by simp
    then have "P (state_of (for_each body xs s'))"
      using Cons.IH Cons.prems(1) by simp
    then show ?thesis using Inr by simp
  qed
qed

lemma for_each_map_props_gen:
  assumes "distinct ps"
    and "properties t = properties s" and "particle_array t = particle_array s"
    and "\<And>q. q \<in> set ps \<Longrightarrow> data_h t q = data_h s q"
    and step: "\<And>p u. p \<in> set ps \<Longrightarrow> properties u = properties s \<Longrightarrow>
           particle_array u = particle_array s \<Longrightarrow> data_h u p = data_h s p \<Longrightarrow>
           body p u = Inr (u\<lparr>data_h := (data_h u)(p := map_option (f p) (data_h s p))\<rparr>)"
  shows "for_each body ps t =
         Inr (t\<lparr>data_h := (\<lambda>q. if q \<in> set ps then map_option (f q) (data_h s q) else data_h t q)\<rparr>)"
  using assms
proof (induction ps arbitrary: t)
  case Nil
  then show ?case by simp
next
  case (Cons p ps)
  let ?u = "t\<lparr>data_h := (data_h t)(p := map_option (f p) (data_h s p))\<rparr>"
  have b: "body p t = Inr ?u"
    by (rule Cons.prems(5)) (simp_all add: Cons.prems(2,3,4))
  have "for_each body ps ?u =
      Inr (?u\<lparr>data_h := (\<lambda>q. if q \<in> set ps then map_option (f q) (data_h s q) else data_h ?u q)\<rparr>)"
  proof (rule Cons.IH)
    show "distinct ps" using Cons.prems(1) by simp
    show "properties ?u = properties s" using Cons.prems(2) by simp
    show "particle_array ?u = particle_array s" using Cons.prems(3) by simp
    show "\<And>q. q \<in> set ps \<Longrightarrow> data_h ?u q = data_h s q"
      using Cons.prems(1,4) by auto
    show "\<And>p' u. p' \<in> set ps \<Longrightarrow> properties u = properties s \<Longrightarrow>
           particle_array u = particle_array s \<Longrightarrow> data_h u p' = data_h s p' \<Longrightarrow>
           body p' u = Inr (u\<lparr>data_h := (data_h u)(p' := map_option (f p') (data_h s p'))\<rparr>)"
      by (rule Cons.prems(5)) simp_all
  qed
  moreover have "(\<lambda>q. if q \<in> set ps then map_option (f q) (data_h s q) else data_h ?u q)
      = (\<lambda>q. if q \<in> set (p # ps) then map_option (f q) (data_h s q) else data_h t q)"
    by (rule ext) auto
  ultimately show ?case using b by simp
qed

lemma for_each_map_props:
  assumes "distinct ps"
    and step: "\<And>p u. p \<in> set ps \<Longrightarrow> properties u = properties s \<Longrightarrow>
           particle_array u = particle_array s \<Longrightarrow> data_h u p = data_h s p \<Longrightarrow>
           body p u = Inr (u\<lparr>data_h := (data_h u)(p := map_option (f p) (data_h s p))\<rparr>)"
  shows "for_each body ps s = Inr (map_props f ps s)"
  unfolding map_props_def
  by (rule for_each_map_props_gen[OF assms(1) refl refl refl step])

lemma map_props_fields [simp]:
  "properties (map_props f ps s) = properties s"
  "constants (map_props f ps s) = constants s"
  "particle_array (map_props f ps s) = particle_array s"
  "num_real_particles (map_props f ps s) = num_real_particles s"
  "data_h (map_props f ps s) q = (if q \<in> set ps then map_option (f q) (data_h s q) else data_h s q)"
  by (simp_all add: map_props_def)

subsection \<open>The kernels of the removal\<close>

lemma fill_if_remove_knl_error:
  "fill_if_remove_knl ix m = Inl e \<Longrightarrow> e = DeviceFault"
  by (induction ix m rule: fill_if_remove_knl.induct) (auto split: if_splits)

lemma fill_if_remove_knl_ok:
  "list_all (\<lambda>i. i < length m) ix \<Longrightarrow>
   \<exists>m'. fill_if_remove_knl ix m = Inr m' \<and> length m' = length m \<and>
        (\<forall>p<length m. m' ! p = (if p \<in> set ix then 1 else m ! p))"
proof (induction ix m rule: fill_if_remove_knl.induct)
  case (1 if_remove)
  then show ?case by simp
next
  case (2 i ix m)
  then have i: "i < length m" and "list_all (\<lambda>k. k < length (m[i := 1])) ix" by simp_all
  from 2(1)[OF this] obtain m' where
    m': "fill_if_remove_knl ix (m[i := 1]) = Inr m'" "length m' = length m"
       "\<forall>p<length m. m' ! p = (if p \<in> set ix then 1 else (m[i := 1]) ! p)"
    by auto
  show ?case using m' 2(2) by (auto simp: nth_list_update)
qed

lemma remove_knl_error:
  "remove_knl i prev rs val dest = Inl e \<Longrightarrow> e = DeviceFault"
  by (induction i prev rs val dest rule: remove_knl.induct)
     (auto simp: Let_def split: if_splits option.splits)

lemma remove_knl_ok:
  assumes "set rs \<subseteq> {0, 1}" and "prev = int i - int c" and "c \<le> i"
    and "c + length (kept i rs) \<le> length dest"
    and "list_all (\<lambda>p. val p \<noteq> None) (kept i rs)"
  shows "remove_knl i prev rs val dest =
         Inr (take c dest @ map (\<lambda>p. the (val p)) (kept i rs) @
              drop (c + length (kept i rs)) dest)"
  using assms
proof (induction rs arbitrary: i prev c dest)
  case Nil
  then show ?case by simp
next
  case (Cons r rs)
  show ?case
  proof (cases "r = 0")
    case True
    from Cons.prems True obtain v where v: "val i = Some v" by auto
    have c: "c < length dest" using Cons.prems True by simp
    have idx: "nat (int i - prev) = c" "0 \<le> int i - prev" using Cons.prems by simp_all
    have "remove_knl (Suc i) prev rs val (dest[c := v]) =
        Inr (take (Suc c) (dest[c := v]) @ map (\<lambda>p. the (val p)) (kept (Suc i) rs) @
              drop (Suc c + length (kept (Suc i) rs)) (dest[c := v]))"
      using Cons.prems True by (intro Cons.IH) auto
    moreover have "take (Suc c) (dest[c := v]) = take c dest @ [v]"
      using c by (simp add: take_Suc_conv_app_nth)
    moreover have "drop (Suc c + length (kept (Suc i) rs)) (dest[c := v]) =
        drop (Suc c + length (kept (Suc i) rs)) dest"
      by simp
    ultimately show ?thesis using True v c idx by (simp add: Let_def)
  next
    case False
    then have r: "r = 1" using Cons.prems by auto
    have "remove_knl (Suc i) (prev + 1) rs val dest =
        Inr (take c dest @ map (\<lambda>p. the (val p)) (kept (Suc i) rs) @
              drop (c + length (kept (Suc i) rs)) dest)"
      using Cons.prems r by (intro Cons.IH) auto
    then show ?thesis using r by (simp add: Let_def)
  qed
qed

lemma kept_eq_filter:
  "kept i rs = filter (\<lambda>p. rs ! (p - i) = 0) [i..<i + length rs]"
proof (induction rs arbitrary: i)
  case Nil
  then show ?case by simp
next
  case (Cons r rs)
  have "(r # rs) ! (p - i) = rs ! (p - Suc i)" if "p \<in> set [Suc i..<Suc i + length rs]" for p
  proof -
    from that have "p - i = Suc (p - Suc i)" by auto
    then show ?thesis by simp
  qed
  then have "filter (\<lambda>p. (r # rs) ! (p - i) = 0) [Suc i..<Suc i + length rs] =
        filter (\<lambda>p. rs ! (p - Suc i) = 0) [Suc i..<Suc i + length rs]"
    by (intro filter_cong[OF refl]) simp
  moreover have "[i..<i + length (r # rs)] = i # [Suc i..<Suc i + length rs]"
  proof -
    have "[i..<i + length (r # rs)] = i # [Suc i..<i + length (r # rs)]"
      by (rule upt_conv_Cons) simp
    moreover have "i + length (r # rs) = Suc i + length rs" by simp
    ultimately show ?thesis by (simp only:)
  qed
  ultimately have "filter (\<lambda>p. (r # rs) ! (p - i) = 0) [i..<i + length (r # rs)] =
      (if r = 0 then i # kept (Suc i) rs else kept (Suc i) rs)"
    using Cons.IH[of "Suc i"] by (simp only: filter.simps diff_self_eq_0 nth_Cons_0)
  then show ?case by simp
qed

lemma kept_mask:
  assumes "length m = n" and "\<forall>p<n. m ! p = (if p \<in> set ix then 1 else 0)"
  shows "kept 0 m = survivors n ix"
  unfolding kept_eq_filter survivors_def using assms
  by (auto intro!: filter_cong)

lemma length_survivors:
  assumes "distinct ix" and "list_all (\<lambda>i. i < n) ix"
  shows "length (survivors n ix) = n - length ix"
proof -
  have "length (filter (\<lambda>p. p \<in> set ix) [0..<n]) = card ({p. p \<in> set ix} \<inter> set [0..<n])"
    by (rule distinct_length_filter) simp
  also have "{p. p \<in> set ix} \<inter> set [0..<n] = set ix"
    using assms(2) by (auto simp: list_all_iff)
  also have "card (set ix) = length ix" using assms(1) by (rule distinct_card)
  finally have "length (filter (\<lambda>p. p \<in> set ix) [0..<n]) = length ix" .
  moreover have "length (filter (\<lambda>p. p \<in> set ix) [0..<n]) +
      length (filter (\<lambda>p. \<not> p \<in> set ix) [0..<n]) = length [0..<n]"
    by (rule sum_length_filter_compl)
  ultimately show ?thesis by (simp add: survivors_def)
qed

lemma length_survivors_ge: "n - length ix \<le> length (survivors n ix)"
proof -
  have "length (filter (\<lambda>p. p \<in> set ix) [0..<n]) = card ({p. p \<in> set ix} \<inter> set [0..<n])"
    by (rule distinct_length_filter) simp
  also have "\<dots> \<le> card (set ix)" by (intro card_mono) auto
  also have "\<dots> \<le> length ix" by (rule card_length)
  finally have "length (filter (\<lambda>p. p \<in> set ix) [0..<n]) \<le> length ix" .
  moreover have "length (filter (\<lambda>p. p \<in> set ix) [0..<n]) +
      length (filter (\<lambda>p. \<not> p \<in> set ix) [0..<n]) = length [0..<n]"
    by (rule sum_length_filter_compl)
  ultimately show ?thesis by (simp add: survivors_def)
qed

lemma length_survivors_le: "length (survivors n ix) \<le> n"
  unfolding survivors_def using length_filter_le[of _ "[0..<n]"] by simp

lemma survivors_bound: "list_all (\<lambda>p. p < n) (survivors n ix)"
  by (simp add: survivors_def list_all_iff)

subsection \<open>Gathering and the partition\<close>

lemma align_da_ok:
  "list_all (\<lambda>i. i < length (array a)) ix \<Longrightarrow> align_da a ix = Inr (gathered ix a)"
  by (simp add: align_da_def cl_take_def with_value_def gathered_def)

lemma align_da_error:
  "align_da a ix = Inl (e, a') \<Longrightarrow> e = DeviceFault \<and> a' = a"
  by (auto simp: align_da_def cl_take_def with_value_def split: if_splits)

lemma length_a_gathered [simp]: "length_a (gathered ix a) = length ix"
  by (simp add: gathered_def)

lemma alloc_gathered [simp]: "alloc (gathered ix a) = length ix"
  by (simp add: gathered_def)

lemma array_gathered [simp]: "array (gathered ix a) = map (\<lambda>i. array a ! i) ix"
  by (simp add: gathered_def)

lemma has_length_D:
  "has_length s n p \<Longrightarrow> \<exists>a. data_h s p = Some a \<and> length_a a = n \<and> n \<le> alloc a \<and> length (array a) = n"
  by (auto simp: has_length_def length_array split: option.splits)

lemma same_length_D:
  "same_length s n \<Longrightarrow> p \<in> set (properties s) \<Longrightarrow>
   \<exists>a. data_h s p = Some a \<and> length_a a = n \<and> n \<le> alloc a \<and> length (array a) = n"
  by (auto simp: same_length_def list_all_iff dest: has_length_D)

lemma align_loop:
  assumes "distinct ps" and "list_all (has_length s n) ps" and "list_all (\<lambda>i. i < n) ix"
  shows "for_each (\<lambda>prop. on_array prop (\<lambda>a. align_da a ix)) ps s =
         Inr (map_props (\<lambda>p. gathered ix) ps s)"
proof (rule for_each_map_props[OF assms(1)])
  fix p and u :: DeviceHelper
  assume p: "p \<in> set ps" and u: "data_h u p = data_h s p"
  from p assms(2) obtain a where a: "data_h s p = Some a" "length (array a) = n"
    by (auto simp: list_all_iff dest: has_length_D)
  have "align_da a ix = Inr (gathered ix a)"
    using assms(3) a by (intro align_da_ok) simp
  then show "on_array p (\<lambda>a. align_da a ix) u =
      Inr (u\<lparr>data_h := (data_h u)(p := map_option (gathered ix) (data_h s p))\<rparr>)"
    using a u by (simp add: on_array_def)
qed

lemma get_number_of_particles_same_length:
  "same_length s n \<Longrightarrow> properties s \<noteq> [] \<Longrightarrow> get_number_of_particles s = Inr n"
  by (cases "properties s")
     (auto simp: get_number_of_particles_def same_length_def dest!: has_length_D)

lemma get_number_of_particles_no_props:
  "properties s = [] \<Longrightarrow> get_number_of_particles s = Inr 0"
  by (simp add: get_number_of_particles_def)

lemma map_nth_upt_id:
  assumes "list_all (\<lambda>i. i < n) xs"
  shows "map (\<lambda>i. [0..<n] ! i) xs = xs"
  using assms by (induction xs) auto

lemma sort_key_upt_bound: "list_all (\<lambda>i. i < n) (sort_key f [0..<n])"
  by (simp add: list_all_iff)

lemma radix_sort_arange:
  "n \<le> length tags \<Longrightarrow>
   radix_sort [0..<n] tags = Inr (sort_key (\<lambda>i. tags ! i mod 4) [0..<n])"
  by (simp add: radix_sort_def map_nth_upt_id sort_key_upt_bound)

lemma radix_sort_error: "radix_sort ix tags = Inl e \<Longrightarrow> e = DeviceFault"
  by (auto simp: radix_sort_def split: if_splits)

lemma same_length_map_props:
  assumes "same_length s n"
    and "\<And>p a. p \<in> set (properties s) \<Longrightarrow> data_h s p = Some a \<Longrightarrow>
           length_a (f p a) = m \<and> m \<le> alloc (f p a)"
  shows "same_length (map_props f (properties s) s) m"
  unfolding same_length_def list_all_iff
proof
  fix p assume p: "p \<in> set (properties (map_props f (properties s) s))"
  then have p': "p \<in> set (properties s)" by simp
  from same_length_D[OF assms(1) p'] obtain a where a: "data_h s p = Some a" by auto
  from assms(2)[OF p' a] show "has_length (map_props f (properties s) s) m p"
    using p' a by (simp add: has_length_def)
qed

lemma same_length_gathered:
  "same_length s n \<Longrightarrow> same_length (map_props (\<lambda>p. gathered ix) (properties s) s) (length ix)"
  by (rule same_length_map_props) simp_all

lemma align_dh_ok:
  assumes "distinct (properties s)" and "same_length s n" and "list_all (\<lambda>i. i < n) ix"
  shows "align_dh s ix = Inr (map_props (\<lambda>p. gathered ix) (properties s) s)"
  unfolding align_dh_def using assms
  by (intro align_loop) (simp_all add: same_length_def)

text \<open>\<^verbatim>\<open>align_particles\<close> in closed form, on a consistent store that has \<^verbatim>\<open>tag\<close>.\<close>

lemma align_particles_ok:
  assumes "distinct (properties s)" and "same_length s n" and "''tag'' \<in> set (properties s)"
    and "data_h s ''tag'' = Some t"
  shows "align_particles s =
     Inr ((map_props (\<lambda>p. gathered (sort_key (\<lambda>i. array t ! i mod 4) [0..<n])) (properties s) s)
          \<lparr>num_real_particles := Some (get_num_real_particles
              (map (\<lambda>i. array t ! i) (sort_key (\<lambda>i. array t ! i mod 4) [0..<n])) 0)\<rparr>)"
proof -
  let ?perm = "sort_key (\<lambda>i. array t ! i mod 4) [0..<n]"
  have ne: "properties s \<noteq> []" using assms(3) by auto
  have num: "get_number_of_particles s = Inr n"
    using assms(2) ne by (rule get_number_of_particles_same_length)
  from same_length_D[OF assms(2,3)] assms(4) have lt: "length (array t) = n" by auto
  then have rs: "radix_sort [0..<n] (array t) = Inr ?perm"
    by (intro radix_sort_arange) simp
  have al: "align_dh s ?perm = Inr (map_props (\<lambda>p. gathered ?perm) (properties s) s)"
    using assms(1,2) sort_key_upt_bound by (rule align_dh_ok)
  show ?thesis
    using assms(3,4) num rs al
    by (simp add: align_particles_def with_value_def and_then_def)
qed

lemma consistent_fields:
  "properties t = properties s \<Longrightarrow> data_h t = data_h s \<Longrightarrow> consistent t = consistent s"
  by (simp add: consistent_def same_length_def has_length_def list_all_iff)

lemma consistent_num_real [simp]:
  "consistent (s\<lparr>num_real_particles := x\<rparr>) = consistent s"
  by (rule consistent_fields) simp_all

lemma consistent_gathered:
  assumes "consistent s"
  shows "consistent (map_props (\<lambda>p. gathered ix) (properties s) s)"
proof -
  from assms obtain n where "same_length s n" by (auto simp: consistent_def)
  then have "same_length (map_props (\<lambda>p. gathered ix) (properties s) s) (length ix)"
    by (rule same_length_gathered)
  then show ?thesis using assms by (auto simp: consistent_def)
qed

lemma align_particles_consistent:
  assumes "consistent s"
  shows "consistent (state_of (align_particles s))"
proof (cases "data_h s ''tag''")
  case None
  then show ?thesis using assms by (simp add: align_particles_def)
next
  case (Some t)
  from assms obtain n where n: "same_length s n" and d: "distinct (properties s)"
    by (auto simp: consistent_def)
  show ?thesis
  proof (cases "properties s = []")
    case True
    then have num: "get_number_of_particles s = Inr 0"
      by (rule get_number_of_particles_no_props)
    have "align_dh s ix = Inr s" for ix by (simp add: align_dh_def True)
    then show ?thesis using Some num assms
      by (auto simp: align_particles_def with_value_def and_then_def radix_sort_def
          split: option.splits)
  next
    case False
    have num: "get_number_of_particles s = Inr n"
      using n False by (rule get_number_of_particles_same_length)
    show ?thesis
    proof (cases "n \<le> length (array t)")
      case le: True
      let ?perm = "sort_key (\<lambda>i. array t ! i mod 4) [0..<n]"
      let ?s1 = "map_props (\<lambda>p. gathered ?perm) (properties s) s"
      have rs: "radix_sort [0..<n] (array t) = Inr ?perm"
        using le by (rule radix_sort_arange)
      have al: "align_dh s ?perm = Inr ?s1"
        using d n sort_key_upt_bound by (rule align_dh_ok)
      have c1: "consistent ?s1" using assms by (rule consistent_gathered)
      show ?thesis using Some num rs al c1
        by (auto simp: align_particles_def with_value_def and_then_def split: option.splits)
    next
      case False
      then have "radix_sort [0..<n] (array t) = Inl DeviceFault"
        by (simp add: radix_sort_def)
      then show ?thesis using Some num assms
        by (simp add: align_particles_def with_value_def)
    qed
  qed
qed

subsection \<open>Removal\<close>

lemma array_init [simp]: "array (DeviceArray_init j n) = map j [0..<n]"
  by (simp add: array_def DeviceArray_init_def cl_empty_def take_map)

lemma array_fill_init [simp]: "array (fill (DeviceArray_init j n) v) = replicate n v"
  by (simp add: fill_def) (simp add: array_def DeviceArray_init_def)

lemma array_copy [simp]: "array (copy a) = array a"
  by (auto simp: copy_def array_def min_def)

lemma mask_of_indices:
  assumes "list_all (\<lambda>i. i < n) ix"
  obtains m where "fill_if_remove_knl ix (replicate n 0) = Inr m" and "length m = n"
    and "\<forall>p<n. m ! p = (if p \<in> set ix then 1 else 0)" and "set m \<subseteq> {0, 1}"
proof -
  from fill_if_remove_knl_ok[of "replicate n 0" ix] assms obtain m where
    m: "fill_if_remove_knl ix (replicate n 0) = Inr m" "length m = n"
       "\<forall>p<n. m ! p = (if p \<in> set ix then 1 else 0)"
    by auto
  have "set m \<subseteq> {0, 1}"
  proof
    fix x assume "x \<in> set m"
    then obtain p where "p < n" "m ! p = x" using m(2) by (auto simp: in_set_conv_nth)
    then show "x \<in> {0, 1}" using m(3) by auto
  qed
  with m show ?thesis using that by blast
qed

lemma remove_da_ok:
  assumes "length ix \<le> length_a a" and "list_all (\<lambda>i. i < length_a a) ix"
    and "length_a a \<le> alloc a"
  shows "remove_da j a ix =
     Inr (set_data a (slice_to_neg
            (map (\<lambda>p. array a ! p) (survivors (length_a a) ix) @
             drop (length (survivors (length_a a) ix)) (array a)) (length ix)))"
proof -
  let ?n = "length_a a"
  from mask_of_indices[OF assms(2)] obtain m where
    m: "fill_if_remove_knl ix (replicate ?n 0) = Inr m" "length m = ?n"
       "\<forall>p<?n. m ! p = (if p \<in> set ix then 1 else 0)" "set m \<subseteq> {0, 1}"
    by blast
  have k: "kept 0 m = survivors ?n ix" using m(2,3) by (rule kept_mask)
  have la: "length (array a) = ?n" using assms(3) by (rule length_array_le)
  have defined: "list_all (\<lambda>p. read_at (array a) p \<noteq> None) (kept 0 m)"
    using survivors_bound[of ?n ix] la by (simp add: k read_at_def list_all_iff)
  have "remove_knl 0 0 m (read_at (array a)) (array a) =
      Inr (take 0 (array a) @ map (\<lambda>p. the (read_at (array a) p)) (kept 0 m) @
           drop (0 + length (kept 0 m)) (array a))"
    using m(4) defined by (intro remove_knl_ok) (simp_all add: k la length_survivors_le)
  moreover have "map (\<lambda>p. the (read_at (array a) p)) (survivors ?n ix) =
      map (\<lambda>p. array a ! p) (survivors ?n ix)"
    using survivors_bound[of ?n ix] la by (simp add: read_at_def list_all_iff)
  ultimately have "remove_knl 0 0 m (read_at (array a)) (array a) =
      Inr (map (\<lambda>p. array a ! p) (survivors ?n ix) @
           drop (length (survivors ?n ix)) (array a))"
    by (simp add: k)
  then show ?thesis using assms(1) m(1)
    by (simp add: remove_da_def with_value_def)
qed

lemma length_le_of_distinct_bounded:
  assumes "distinct ix" and "list_all (\<lambda>i. i < n) ix"
  shows "length ix \<le> n"
proof -
  have "set ix \<subseteq> {0..<n}" using assms(2) by (auto simp: list_all_iff)
  then have "card (set ix) \<le> card {0..<n}" by (intro card_mono) simp_all
  then show ?thesis using assms(1) by (simp add: distinct_card)
qed

lemma remove_da_distinct:
  assumes "distinct ix" and "ix \<noteq> []" and "list_all (\<lambda>i. i < length_a a) ix"
    and "length_a a \<le> alloc a"
  shows "remove_da j a ix = Inr (gathered (survivors (length_a a) ix) a)"
proof -
  let ?n = "length_a a"
  have le: "length ix \<le> ?n" using assms(1,3) by (rule length_le_of_distinct_bounded)
  have ls: "length (survivors ?n ix) = ?n - length ix"
    using assms(1,3) by (rule length_survivors)
  have la: "length (array a) = ?n" using assms(4) by (rule length_array_le)
  have "slice_to_neg (map (\<lambda>p. array a ! p) (survivors ?n ix) @
             drop (length (survivors ?n ix)) (array a)) (length ix) =
        map (\<lambda>p. array a ! p) (survivors ?n ix)"
    using assms(2) le ls la by (simp add: slice_to_neg_def)
  then show ?thesis using remove_da_ok[OF le assms(3,4), of j]
    by (simp add: gathered_def)
qed

lemma remove_da_value_error:
  "(\<exists>a'. remove_da j a ix = Inl (ValueError, a')) \<longleftrightarrow> length_a a < length ix"
proof (cases "length_a a < length ix")
  case True
  then show ?thesis by (simp add: remove_da_def)
next
  case False
  have "e = DeviceFault" if "remove_da j a ix = Inl (e, a')" for e a'
    using that False
    by (auto simp: remove_da_def with_value_def Let_def split: sum.splits
        dest: fill_if_remove_knl_error remove_knl_error)
  then show ?thesis using False by auto
qed

lemma for_each_raised:
  assumes "for_each body xs s = Inl (e, s')"
    and "\<And>x t e' t'. body x t = Inl (e', t') \<Longrightarrow> Q e'"
  shows "Q e"
  using assms
proof (induction xs arbitrary: s)
  case Nil
  then show ?case by simp
next
  case (Cons x xs)
  then show ?case by (auto split: sum.splits)
qed

lemma on_array_align_error:
  "on_array p (\<lambda>a. align_da a ix) s = Inl (e, s') \<Longrightarrow> e \<noteq> ValueError"
  by (auto simp: on_array_def split: option.splits sum.splits dest: align_da_error)

lemma align_loop_error:
  "for_each (\<lambda>prop. on_array prop (\<lambda>a. align_da a ix)) ps s = Inl (e, s') \<Longrightarrow>
   e \<noteq> ValueError"
  by (erule for_each_raised) (rule on_array_align_error)

lemma align_dh_error: "align_dh s ix = Inl (e, s') \<Longrightarrow> e \<noteq> ValueError"
  unfolding align_dh_def by (rule align_loop_error)

lemma get_number_of_particles_error:
  "get_number_of_particles s = Inl e \<Longrightarrow> e \<noteq> ValueError"
  by (auto simp: get_number_of_particles_def split: list.splits option.splits)

lemma align_particles_error: "align_particles s = Inl (e, s') \<Longrightarrow> e \<noteq> ValueError"
  by (auto simp: align_particles_def with_value_def and_then_def
      split: option.splits sum.splits
      dest: get_number_of_particles_error radix_sort_error align_dh_error)

lemma remove_particles_value_error:
  "(\<exists>s'. remove_particles j s ix = Inl (ValueError, s')) \<longleftrightarrow>
   (\<exists>n. get_number_of_particles s = Inr n \<and> n < length ix)"
proof (cases "get_number_of_particles s")
  case (Inl e)
  then show ?thesis
    by (auto simp: remove_particles_def with_value_def dest: get_number_of_particles_error)
next
  case (Inr n)
  show ?thesis
  proof (cases "n < length ix")
    case True
    then show ?thesis using Inr by (simp add: remove_particles_def with_value_def)
  next
    case False
    have "e \<noteq> ValueError" if "remove_particles j s ix = Inl (e, s')" for e s'
      using that False Inr
      by (auto simp: remove_particles_def with_value_def and_then_def Let_def
          split: sum.splits if_splits
          dest: fill_if_remove_knl_error remove_knl_error align_particles_error
            align_loop_error)
    then show ?thesis using False Inr by auto
  qed
qed

lemma remove_particles_ok:
  assumes "distinct (properties s)" and "same_length s n"
    and "get_number_of_particles s = Inr n"
    and "length ix \<le> n" and "list_all (\<lambda>i. i < n) ix"
  shows "remove_particles j s ix =
     (if ix = [] then Inr (map_props (\<lambda>p. gathered []) (properties s) s)
      else align_particles
             (map_props (\<lambda>p. gathered (take (n - length ix) (survivors n ix)))
                (properties s) s))"
proof -
  let ?junk = "map (\<lambda>i. as_uint32 (j i)) [0..<n]"
  have ls: "n - length ix \<le> length (survivors n ix)" by (rule length_survivors_ge)
  from mask_of_indices[OF assms(5)] obtain m where
    m: "fill_if_remove_knl ix (replicate n 0) = Inr m" "length m = n"
       "\<forall>p<n. m ! p = (if p \<in> set ix then 1 else 0)" "set m \<subseteq> {0, 1}"
    by blast
  have k: "kept 0 m = survivors n ix" using m(2,3) by (rule kept_mask)
  have "remove_knl 0 0 m (\<lambda>i. Some i) ?junk =
      Inr (take 0 ?junk @ map (\<lambda>p. the (Some p)) (kept 0 m) @
           drop (0 + length (kept 0 m)) ?junk)"
    using m(4) by (intro remove_knl_ok) (simp_all add: k length_survivors_le list_all_iff)
  then have scan: "remove_knl 0 0 m (\<lambda>i. Some i) ?junk =
      Inr (survivors n ix @ drop (length (survivors n ix)) ?junk)"
    by (simp add: k)
  have slice: "slice_to_neg (survivors n ix @ drop (length (survivors n ix)) ?junk) (length ix) =
      (if ix = [] then [] else take (n - length ix) (survivors n ix))"
    using ls assms(4) length_survivors_le[of n ix] by (simp add: slice_to_neg_def)
  have loop: "for_each (\<lambda>prop. on_array prop (\<lambda>a. align_da a L)) (properties s) s =
      Inr (map_props (\<lambda>p. gathered L) (properties s) s)" if "list_all (\<lambda>i. i < n) L" for L
    using assms(1) _ that by (rule align_loop) (use assms(2) in \<open>simp add: same_length_def\<close>)
  have bound: "list_all (\<lambda>i. i < n) (take (n - length ix) (survivors n ix))"
    using survivors_bound[of n ix] by (auto simp: list_all_iff dest: in_set_takeD)
  show ?thesis
    using assms(3,4) m(1) scan slice loop[of "[]"] loop[OF bound]
    by (simp add: remove_particles_def with_value_def and_then_def)
qed

lemma remove_particles_distinct:
  assumes "distinct (properties s)" and "same_length s n"
    and "get_number_of_particles s = Inr n"
    and "distinct ix" and "list_all (\<lambda>i. i < n) ix"
  shows "remove_particles j s ix =
     (if ix = [] then Inr (map_props (\<lambda>p. gathered []) (properties s) s)
      else align_particles (map_props (\<lambda>p. gathered (survivors n ix)) (properties s) s))"
proof -
  have le: "length ix \<le> n" using assms(4,5) by (rule length_le_of_distinct_bounded)
  have "length (survivors n ix) = n - length ix"
    using assms(4,5) by (rule length_survivors)
  then have "take (n - length ix) (survivors n ix) = survivors n ix" by simp
  then show ?thesis using remove_particles_ok[OF assms(1,2,3) le assms(5), of j] by simp
qed

lemma number_of_particles_eq:
  "get_number_of_particles s = Inr n \<Longrightarrow> number_of_particles s = n"
  by (simp add: number_of_particles_def)

lemma remove_particles_returns:
  assumes "consistent s" and "''tag'' \<in> set (properties s)"
    and "length ix \<le> number_of_particles s"
    and "list_all (\<lambda>i. i < number_of_particles s) ix"
  shows "raised (remove_particles j s ix) = None"
proof -
  from assms(1) obtain n where n: "same_length s n" and d: "distinct (properties s)"
    by (auto simp: consistent_def)
  have ne: "properties s \<noteq> []" using assms(2) by auto
  have num: "get_number_of_particles s = Inr n"
    using n ne by (rule get_number_of_particles_same_length)
  then have inr: "list_all (\<lambda>i. i < n) ix" and le: "length ix \<le> n"
    using assms(3,4) by (simp_all add: number_of_particles_eq)
  let ?L = "take (n - length ix) (survivors n ix)"
  let ?s1 = "map_props (\<lambda>p. gathered ?L) (properties s) s"
  from same_length_D[OF n assms(2)] obtain t where t: "data_h s ''tag'' = Some t" by auto
  have "align_particles ?s1 = Inr
      ((map_props (\<lambda>p. gathered (sort_key (\<lambda>i. array (gathered ?L t) ! i mod 4)
            [0..<length ?L])) (properties ?s1) ?s1)
       \<lparr>num_real_particles := Some (get_num_real_particles
           (map (\<lambda>i. array (gathered ?L t) ! i)
              (sort_key (\<lambda>i. array (gathered ?L t) ! i mod 4) [0..<length ?L])) 0)\<rparr>)"
    using d same_length_gathered[OF n, of ?L] assms(2) t
    by (intro align_particles_ok) simp_all
  then show ?thesis
    using remove_particles_ok[OF d n num le inr, of j] by simp
qed

lemma remove_da_returns:
  assumes "length ix \<le> length_a a" and "length_a a \<le> alloc a"
    and "list_all (\<lambda>i. i < length_a a) ix"
  shows "raised (remove_da j a ix) = None"
  using remove_da_ok[OF assms(1,3,2), of j] by simp

subsection \<open>Growth\<close>

lemma array_resize_fill_from:
  assumes "length_a a = n" and "n \<le> alloc a"
  shows "array (fill_from (resize j a (n + k)) n d) = array a @ replicate k d"
proof -
  let ?r = "resize j a (n + k)"
  have la: "length (array a) = n" using assms by (simp add: length_array)
  have d: "data_a ?r = data_a a @ drop (alloc a) (cl_empty j (n + k))"
    by (simp add: resize_def reserve_def)
  have l: "length (array ?r) = n + k"
    by (simp add: length_array alloc_resize)
  have t: "take n (array ?r) = array a"
    using assms by (simp add: array_def d alloc_def)
  have f: "data_a (fill_from ?r n d) = array a @ replicate k d @ drop (n + k) (data_a ?r)"
    by (simp add: fill_from_def Let_def l t)
  have "array (fill_from ?r n d) = take (n + k) (data_a (fill_from ?r n d))"
    by (simp add: array_def)
  also have "\<dots> = array a @ replicate k d"
    unfolding f using la by simp
  finally show ?thesis .
qed

lemma grow_lengths:
  "length_a (fill_from (resize j a m) n d) = m \<and> m \<le> alloc (fill_from (resize j a m) n d)"
  by (simp add: alloc_resize)

lemma extend_da_ok:
  assumes "vs \<noteq> []" and "length_a a \<le> alloc a"
  shows "\<exists>b. extend_da j a vs = Inr b \<and> length_a b = length_a a + length vs \<and>
             length_a b \<le> alloc b \<and>
             (alloc a \<le> length_a a + length vs \<longrightarrow> array b = array a @ vs)"
proof -
  let ?k = "length vs"
  let ?a1 = "if length_a a + ?k > alloc a then reserve j a (length_a a + ?k) else a"
  have k: "0 < ?k" using assms(1) by simp
  have al: "alloc ?a1 = max (alloc a) (length_a a + ?k)"
    by (simp add: alloc_reserve max_def)
  have la: "length_a ?a1 = length_a a" by simp
  have st: "slice_from_neg_start (alloc ?a1) ?k = alloc ?a1 - ?k"
    using k by (simp add: slice_from_neg_start_def)
  let ?b = "?a1\<lparr>data_a := take (alloc ?a1 - ?k) (data_a ?a1) @ vs,
                 length_a := length_a ?a1 + ?k\<rparr>"
  have ex: "extend_da j a vs = Inr ?b"
    unfolding extend_da_def Let_def st using al by (simp add: max_def)
  have lb: "length_a ?b = length_a a + ?k" by simp
  have ab: "alloc ?b = alloc ?a1"
    using al by (simp add: alloc_def[of ?b]) (simp add: alloc_def max_def split: if_splits)
  have "array ?b = array a @ vs" if "alloc a \<le> length_a a + ?k"
  proof -
    have a1: "alloc ?a1 = length_a a + ?k" using al that by (simp add: max_def)
    have la: "length (array a) = length_a a" using assms(2) by (simp add: length_array)
    have "take (length_a a) (data_a ?a1) = array a"
      using assms(2) by (simp add: array_def reserve_def alloc_def)
    then have "data_a ?b = array a @ vs" using a1 by simp
    moreover have "array ?b = take (length_a a + ?k) (data_a ?b)"
      unfolding array_def by simp
    ultimately show ?thesis using la by simp
  qed
  then show ?thesis using ex lb ab al by (auto simp: max_def)
qed

lemma update_prop_member:
  "p \<in> set (properties s) \<Longrightarrow> update_prop s p b = s\<lparr>data_h := (data_h s)(p \<mapsto> b)\<rparr>"
  by (simp add: update_prop_def)

lemma has_defaults_D:
  "has_defaults s \<Longrightarrow> p \<in> set (properties s) \<Longrightarrow>
   \<exists>d. default_values (particle_array s) p = Some d"
  by (auto simp: has_defaults_def list_all_iff)

lemma extend_dh_ok:
  assumes "distinct (properties s)" and "same_length s n" and "has_defaults s"
    and "get_number_of_particles s = Inr n" and "0 < num"
  shows "extend_dh j s num =
     Inr (map_props (\<lambda>p a. case default_values (particle_array s) p of
               None \<Rightarrow> a
             | Some d \<Rightarrow> fill_from (resize j a (n + nat num)) n d) (properties s) s)"
proof -
  let ?f = "\<lambda>p a. case default_values (particle_array s) p of
               None \<Rightarrow> a
             | Some d \<Rightarrow> fill_from (resize j a (n + nat num)) n d"
  have "for_each (extend_dh_body j n (n + nat num)) (properties s) s =
      Inr (map_props ?f (properties s) s)"
  proof (rule for_each_map_props[OF assms(1)])
    fix p and u :: DeviceHelper
    assume p: "p \<in> set (properties s)" and u: "properties u = properties s"
      "particle_array u = particle_array s" "data_h u p = data_h s p"
    from same_length_D[OF assms(2) p] obtain a where a: "data_h s p = Some a" by auto
    from has_defaults_D[OF assms(3) p] obtain d where
      d: "default_values (particle_array s) p = Some d" by auto
    show "extend_dh_body j n (n + nat num) p u =
        Inr (u\<lparr>data_h := (data_h u)(p := map_option (?f p) (data_h s p))\<rparr>)"
      using p u a d by (simp add: extend_dh_body_def update_prop_member)
  qed
  then show ?thesis using assms(4,5) by (simp add: extend_dh_def with_value_def)
qed

lemma get_number_of_particles_consistent:
  assumes "consistent s"
  obtains n where "same_length s n" and "get_number_of_particles s = Inr n"
proof (cases "properties s = []")
  case True
  then have "same_length s 0" by (simp add: same_length_def)
  moreover have "get_number_of_particles s = Inr 0"
    using True by (rule get_number_of_particles_no_props)
  ultimately show ?thesis using that by blast
next
  case False
  from assms obtain n where n: "same_length s n" by (auto simp: consistent_def)
  then have "get_number_of_particles s = Inr n"
    using False by (rule get_number_of_particles_same_length)
  with n show ?thesis using that by blast
qed

lemma consistent_map_props:
  assumes "consistent s" and "same_length s n"
    and "\<And>p a. p \<in> set (properties s) \<Longrightarrow> data_h s p = Some a \<Longrightarrow>
           length_a (f p a) = m \<and> m \<le> alloc (f p a)"
  shows "consistent (map_props f (properties s) s)"
proof -
  have "same_length (map_props f (properties s) s) m"
    by (rule same_length_map_props[OF assms(2)]) (rule assms(3))
  then show ?thesis using assms(1) by (auto simp: consistent_def)
qed

lemma extend_dh_consistent:
  assumes "consistent s" and "has_defaults s"
  shows "consistent (state_of (extend_dh j s num))"
proof (cases "0 < num")
  case False
  then show ?thesis using assms(1) by (simp add: extend_dh_def)
next
  case True
  from get_number_of_particles_consistent[OF assms(1)] obtain n where
    n: "same_length s n" "get_number_of_particles s = Inr n" by blast
  have d: "distinct (properties s)" using assms(1) by (simp add: consistent_def)
  show ?thesis
    unfolding extend_dh_ok[OF d n(1) assms(2) n(2) True] state_of_simps
  proof (rule consistent_map_props[OF assms(1) n(1)])
    fix p a assume p: "p \<in> set (properties s)"
    from has_defaults_D[OF assms(2) p] obtain d where
      "default_values (particle_array s) p = Some d" by auto
    then show "length_a (case default_values (particle_array s) p of None \<Rightarrow> a
              | Some d \<Rightarrow> fill_from (resize j a (n + nat num)) n d) = n + nat num \<and>
        n + nat num \<le> alloc (case default_values (particle_array s) p of None \<Rightarrow> a
              | Some d \<Rightarrow> fill_from (resize j a (n + nat num)) n d)"
      by (simp add: alloc_resize)
  qed
qed

lemma check_loop:
  "for_each (\<lambda>prop s'. check_property s' prop) xs s =
     (if list_all (\<lambda>p. p \<in> set (properties s)) xs then Inr s
      else Inl (AttributeError (hd (filter (\<lambda>p. p \<notin> set (properties s)) xs)), s))"
  by (induction xs) (auto simp: check_property_def)

lemma state_of_and_then_Inr [simp]: "state_of (and_then r Inr) = state_of r"
  by (cases r) (auto simp: and_then_def)

lemma map_of_list_all:
  "list_all P kvs \<Longrightarrow> map_of kvs p = Some v \<Longrightarrow> P (p, v)"
  by (auto simp: list_all_iff dest: map_of_SomeD)

lemma add_particles_loop:
  assumes "distinct (properties s)" and "same_length s n" and "has_defaults s"
    and "list_all (\<lambda>kv. length (snd kv) = k) pp" and "0 < k"
  shows "for_each (add_particles_body j pp n (k + n)) (properties s) s =
         Inr (map_props (grown j s pp n (k + n)) (properties s) s)"
proof (rule for_each_map_props[OF assms(1)])
  fix p and u :: DeviceHelper
  assume p: "p \<in> set (properties s)" and u: "properties u = properties s"
    "particle_array u = particle_array s" "data_h u p = data_h s p"
  from same_length_D[OF assms(2) p] obtain a where
    a: "data_h s p = Some a" "length_a a = n" "n \<le> alloc a" by auto
  from has_defaults_D[OF assms(3) p] obtain d where
    d: "default_values (particle_array s) p = Some d" by auto
  show "add_particles_body j pp n (k + n) p u =
      Inr (u\<lparr>data_h := (data_h u)(p := map_option (grown j s pp n (k + n) p) (data_h s p))\<rparr>)"
  proof (cases "map_of pp p")
    case None
    then show ?thesis using p u a d
      by (simp add: add_particles_body_def grown_def update_prop_member)
  next
    case (Some vs)
    from map_of_list_all[OF assms(4) Some] assms(5) have "vs \<noteq> []" by auto
    from extend_da_ok[OF this, of a j] a obtain b where "extend_da j a vs = Inr b" by auto
    then show ?thesis using Some p u a
      by (simp add: add_particles_body_def grown_def update_prop_member)
  qed
qed

lemma grown_lengths:
  assumes "has_defaults s" and "p \<in> set (properties s)"
    and "list_all (\<lambda>kv. length (snd kv) = k) pp" and "0 < k"
    and "length_a a = n" and "n \<le> alloc a"
  shows "length_a (grown j s pp n (k + n) p a) = k + n \<and>
         k + n \<le> alloc (grown j s pp n (k + n) p a)"
proof (cases "map_of pp p")
  case None
  from has_defaults_D[OF assms(1,2)] obtain d where
    "default_values (particle_array s) p = Some d" by auto
  then show ?thesis using None by (simp add: grown_def alloc_resize)
next
  case (Some vs)
  from map_of_list_all[OF assms(3) Some] assms(4) have vs: "vs \<noteq> []" "length vs = k" by auto
  from extend_da_ok[OF vs(1), of a j] assms(5,6) vs(2) show ?thesis
    using Some by (auto simp: grown_def)
qed

lemma add_particles_Cons:
  "pp = (p0, v0) # rest \<Longrightarrow>
   add_particles j s pp =
     and_then (for_each (\<lambda>prop s'. check_property s' prop) (map fst pp) s) (\<lambda>s0.
       with_value (get_number_of_particles s0) s0 (\<lambda>old.
         and_then (for_each (add_particles_body j pp old (length v0 + old)) (properties s0) s0)
           (\<lambda>s1. if 0 < length v0 then align_particles s1 else Inr s1)))"
  by (simp add: add_particles_def)

lemma add_particles_ok:
  assumes "distinct (properties s)" and "same_length s n" and "has_defaults s"
    and "get_number_of_particles s = Inr n"
    and "pp \<noteq> []"
    and "list_all (\<lambda>kv. fst kv \<in> set (properties s) \<and> length (snd kv) = k) pp"
    and "0 < k"
  shows "add_particles j s pp =
         align_particles (map_props (grown j s pp n (k + n)) (properties s) s)"
proof -
  from assms(5) obtain p0 v0 rest where pp: "pp = (p0, v0) # rest"
    by (cases pp) auto
  have k: "length v0 = k" using assms(6) pp by simp
  have reg: "list_all (\<lambda>p. p \<in> set (properties s)) (map fst pp)"
    using assms(6) by (simp add: list_all_iff)
  have len: "list_all (\<lambda>kv. length (snd kv) = k) pp"
    using assms(6) by (simp add: list_all_iff)
  have chk: "for_each (\<lambda>prop s'. check_property s' prop) (map fst pp) s = Inr s"
    using reg by (simp add: check_loop)
  have loop: "for_each (add_particles_body j pp n (k + n)) (properties s) s =
         Inr (map_props (grown j s pp n (k + n)) (properties s) s)"
    using assms(1,2,3) len assms(7) by (rule add_particles_loop)
  show ?thesis
    unfolding add_particles_Cons[OF pp]
    using chk loop assms(4,7) k
    by (simp add: and_then_def with_value_def)
qed

lemma same_length_upd:
  assumes "same_length t n" and "length_a b = n" and "n \<le> alloc b"
  shows "same_length (t\<lparr>data_h := (data_h t)(p \<mapsto> b)\<rparr>) n"
  using assms by (auto simp: same_length_def list_all_iff has_length_def)

lemma extend_da_nil:
  assumes "length_a a \<le> alloc a"
  shows "length_a (state_of (extend_da j a [])) = length_a a \<and>
         length_a a \<le> alloc (state_of (extend_da j a []))"
  using assms by (auto simp: extend_da_def slice_from_neg_start_def alloc_def)

lemma add_particles_body_zero:
  assumes "same_length t n" and "has_defaults t" and "p \<in> set (properties t)"
    and "list_all (\<lambda>kv. length (snd kv) = 0) pp"
  shows "\<exists>b. state_of (add_particles_body j pp n n p t) = t\<lparr>data_h := (data_h t)(p \<mapsto> b)\<rparr> \<and>
             length_a b = n \<and> n \<le> alloc b"
proof -
  from same_length_D[OF assms(1,3)] obtain a where
    a: "data_h t p = Some a" "length_a a = n" "n \<le> alloc a" by auto
  from has_defaults_D[OF assms(2,3)] obtain d where
    d: "default_values (particle_array t) p = Some d" by auto
  show ?thesis
  proof (cases "map_of pp p")
    case None
    then show ?thesis using a d assms(3)
      by (auto simp: add_particles_body_def update_prop_member alloc_resize)
  next
    case (Some vs)
    from map_of_list_all[OF assms(4) Some] have vs: "vs = []" by simp
    from extend_da_nil[of a j] a have
      "length_a (state_of (extend_da j a [])) = n \<and> n \<le> alloc (state_of (extend_da j a []))"
      by simp
    then show ?thesis using Some a vs assms(3)
      by (cases "extend_da j a []")
         (auto simp: add_particles_body_def update_prop_member)
  qed
qed

lemma has_defaults_fields:
  "properties t = properties s \<Longrightarrow> particle_array t = particle_array s \<Longrightarrow>
   has_defaults t = has_defaults s"
  by (simp add: has_defaults_def)

lemma add_particles_consistent:
  assumes "consistent s" and "has_defaults s"
    and "list_all (\<lambda>kv. length (snd kv) = length (snd (hd pp))) pp"
  shows "consistent (state_of (add_particles j s pp))"
proof (cases pp)
  case Nil
  then show ?thesis using assms(1) by (simp add: add_particles_def)
next
  case (Cons kv rest)
  obtain p0 v0 where kv: "kv = (p0, v0)" by (cases kv)
  have pp: "pp = (p0, v0) # rest" using Cons kv by simp
  let ?k = "length v0"
  have len: "list_all (\<lambda>kv. length (snd kv) = ?k) pp" using assms(3) pp by simp
  from get_number_of_particles_consistent[OF assms(1)] obtain n where
    n: "same_length s n" "get_number_of_particles s = Inr n" by blast
  have d: "distinct (properties s)" using assms(1) by (simp add: consistent_def)
  show ?thesis
  proof (cases "list_all (\<lambda>p. p \<in> set (properties s)) (map fst pp)")
    case False
    then show ?thesis using assms(1)
      unfolding add_particles_Cons[OF pp] by (simp add: check_loop and_then_def)
  next
    case True
    show ?thesis
    proof (cases "0 < ?k")
      case pos: True
      have reg: "list_all (\<lambda>kv. fst kv \<in> set (properties s) \<and> length (snd kv) = ?k) pp"
        using True len by (simp add: list_all_iff)
      have "consistent (map_props (grown j s pp n (?k + n)) (properties s) s)"
      proof (rule consistent_map_props[OF assms(1) n(1)])
        fix p a assume "p \<in> set (properties s)" "data_h s p = Some a"
        with same_length_D[OF n(1), of p] have "length_a a = n" "n \<le> alloc a" by auto
        with grown_lengths[OF assms(2) \<open>p \<in> set (properties s)\<close> len pos, of a n j]
        show "length_a (grown j s pp n (?k + n) p a) = ?k + n \<and>
              ?k + n \<le> alloc (grown j s pp n (?k + n) p a)" by simp
      qed
      then have "consistent (state_of (align_particles
          (map_props (grown j s pp n (?k + n)) (properties s) s)))"
        by (rule align_particles_consistent)
      then show ?thesis
        using add_particles_ok[OF d n(1) assms(2) n(2) _ reg pos, of j] pp by simp
    next
      case zero: False
      let ?P = "\<lambda>t. same_length t n \<and> properties t = properties s \<and>
                    particle_array t = particle_array s"
      have inv: "?P (state_of (for_each (add_particles_body j pp n n) (properties s) s))"
      proof (rule for_each_invariant[where P = ?P])
        show "?P s" using n(1) by simp
      next
        fix p t assume p: "p \<in> set (properties s)" and t: "?P t"
        have hd: "has_defaults t"
          using t assms(2) has_defaults_fields[of t s] by simp
        from add_particles_body_zero[of t n p pp j] t p hd len zero obtain b where
          b: "state_of (add_particles_body j pp n n p t) = t\<lparr>data_h := (data_h t)(p \<mapsto> b)\<rparr>"
             "length_a b = n" "n \<le> alloc b" by auto
        show "?P (state_of (add_particles_body j pp n n p t))"
          unfolding b(1) using same_length_upd[OF _ b(2,3), of t p] t by simp
      qed
      have "state_of (add_particles j s pp) =
          state_of (for_each (add_particles_body j pp n n) (properties s) s)"
        unfolding add_particles_Cons[OF pp] using True zero n(2)
        by (simp add: check_loop and_then_def with_value_def split: sum.splits)
      then show ?thesis using inv d by (auto simp: consistent_def)
    qed
  qed
qed

subsection \<open>Every operation keeps the store consistent\<close>

lemma remove_particles_consistent:
  assumes "consistent s" and "list_all (\<lambda>i. i < number_of_particles s) ix"
  shows "consistent (state_of (remove_particles j s ix))"
proof -
  from get_number_of_particles_consistent[OF assms(1)] obtain n where
    n: "same_length s n" "get_number_of_particles s = Inr n" by blast
  have d: "distinct (properties s)" using assms(1) by (simp add: consistent_def)
  have inr: "list_all (\<lambda>i. i < n) ix"
    using assms(2) n(2) by (simp add: number_of_particles_eq)
  show ?thesis
  proof (cases "length ix \<le> n")
    case False
    then show ?thesis using assms(1) n(2)
      by (simp add: remove_particles_def with_value_def)
  next
    case True
    have "consistent (map_props (\<lambda>p. gathered L) (properties s) s)" for L
      using assms(1) by (rule consistent_gathered)
    then show ?thesis
      unfolding remove_particles_ok[OF d n True inr]
      by (simp add: align_particles_consistent)
  qed
qed

lemma remove_tagged_particles_consistent:
  assumes "consistent s" and "''tag'' \<in> set (properties s)"
  shows "consistent (state_of (remove_tagged_particles j s tag))"
proof -
  from assms(1) obtain n where n: "same_length s n" by (auto simp: consistent_def)
  from same_length_D[OF n assms(2)] obtain tb where
    tb: "data_h s ''tag'' = Some tb" "length (array tb) = n" by auto
  have ne: "properties s \<noteq> []" using assms(2) by auto
  have num: "number_of_particles s = n"
    using get_number_of_particles_same_length[OF n ne] by (rule number_of_particles_eq)
  let ?ix = "filter (\<lambda>i. array tb ! i = tag) [0..<length (array tb)]"
  have "consistent (state_of (remove_particles j s ?ix))"
    using assms(1) by (rule remove_particles_consistent) (simp add: num tb list_all_iff)
  then show ?thesis using assms(1) tb
    by (simp add: remove_tagged_particles_def Let_def)
qed

lemma assign_from_lengths:
  "length_a (state_of (assign_from a st vs)) = length_a a \<and>
   alloc (state_of (assign_from a st vs)) = alloc a"
  by (auto simp: assign_from_def Let_def alloc_def array_def min_def)

lemma on_array_state:
  "data_h t p = Some a \<Longrightarrow>
   state_of (on_array p m t) = t\<lparr>data_h := (data_h t)(p \<mapsto> state_of (m a))\<rparr>"
  by (cases "m a") (auto simp: on_array_def)

lemma same_length_upd_other:
  assumes "same_length t n" and "c \<notin> set (properties t)"
  shows "same_length (t\<lparr>data_h := (data_h t)(c \<mapsto> b)\<rparr>) n"
  using assms by (auto simp: same_length_def list_all_iff has_length_def)

lemma length_fill_init:
  "length_a (fill (DeviceArray_init j n) v) = n \<and> n \<le> alloc (fill (DeviceArray_init j n) v)"
  by (auto simp: fill_def DeviceArray_init_def alloc_def array_def)

lemma append_parray_prop_state:
  assumes "same_length t N" and "distinct (properties t)"
  shows "same_length (state_of (append_parray_prop j g old N p t)) N \<and>
         distinct (properties (state_of (append_parray_prop j g old N p t))) \<and>
         set (properties (state_of (append_parray_prop j g old N p t))) \<subseteq>
           insert p (set (properties t))"
proof (cases "p \<in> set (properties t)")
  case True
  from same_length_D[OF assms(1) True] obtain a where
    a: "data_h t p = Some a" "length_a a = N" "N \<le> alloc a" by auto
  show ?thesis
  proof (cases "array_of_source (get_device_array g p)")
    case (Inl e)
    then show ?thesis using True a assms
      by (auto simp: append_parray_prop_def with_value_def)
  next
    case (Inr src)
    have "same_length (t\<lparr>data_h := (data_h t)(p \<mapsto> state_of (assign_from a old src))\<rparr>) N"
      using assms(1) a assign_from_lengths[of a old src] by (intro same_length_upd) simp_all
    then show ?thesis using True a Inr assms(2)
      by (auto simp: append_parray_prop_def with_value_def on_array_state)
  qed
next
  case False
  show ?thesis
  proof (cases "data_h t p")
    case None
    then show ?thesis using False assms by (auto simp: append_parray_prop_def)
  next
    case (Some dt)
    show ?thesis
    proof (cases "default_values (particle_array g) p")
      case None
      then show ?thesis using False Some assms by (auto simp: append_parray_prop_def)
    next
      case dflt: (Some dv)
      let ?arr = "fill (DeviceArray_init j N) dv"
      let ?s1 = "update_prop t p ?arr"
      have props: "properties ?s1 = properties t @ [p]"
        using False by (simp add: update_prop_def)
      have s1: "same_length ?s1 N"
        using assms(1) False length_fill_init[of j N dv]
        by (auto simp: same_length_def list_all_iff has_length_def update_prop_def)
      have dat: "data_h ?s1 p = Some ?arr" by (simp add: update_prop_def)
      show ?thesis
      proof (cases "array_of_source (get_device_array g p)")
        case (Inl e)
        then show ?thesis using False Some dflt s1 props assms(2)
          by (auto simp: append_parray_prop_def with_value_def Let_def)
      next
        case (Inr src)
        have "same_length (?s1\<lparr>data_h := (data_h ?s1)(p \<mapsto> state_of (assign_from ?arr old src))\<rparr>) N"
          using s1 length_fill_init[of j N dv] assign_from_lengths[of ?arr old src]
          by (intro same_length_upd) simp_all
        then show ?thesis using False Some dflt Inr props assms(2)
          by (auto simp: append_parray_prop_def with_value_def Let_def on_array_state[OF dat])
      qed
    qed
  qed
qed

lemma append_parray_const_state:
  assumes "same_length t N" and "c \<notin> set (properties t)"
  shows "same_length (state_of (append_parray_const g c t)) N \<and>
         properties (state_of (append_parray_const g c t)) = properties t"
  using assms same_length_upd_other[OF assms, of "copy b" for b]
  by (auto simp: append_parray_const_def update_const_def same_length_def list_all_iff
      has_length_def split: sum.splits option.splits)

lemma state_of_and_then:
  "state_of (and_then r f) = (case r of Inl es \<Rightarrow> snd es | Inr t \<Rightarrow> state_of (f t))"
  by (cases r) (auto simp: and_then_def)

lemma and_then_invariant:
  assumes "P (state_of r)" and "\<And>t. P t \<Longrightarrow> Q t" and "\<And>t. P t \<Longrightarrow> Q (state_of (f t))"
  shows "Q (state_of (and_then r f))"
  using assms by (cases r) (auto simp: and_then_def)

lemma append_parray_consistent:
  assumes "consistent s" and "has_defaults s" and "consistent g"
    and "list_all (\<lambda>c. c \<notin> set (properties s) \<and> c \<notin> set (properties g)) (constants g)"
  shows "consistent (state_of (append_parray j s g))"
proof -
  from get_number_of_particles_consistent[OF assms(3)] obtain ne where
    ne: "get_number_of_particles g = Inr ne" by blast
  from get_number_of_particles_consistent[OF assms(1)] obtain n where
    n: "same_length s n" "get_number_of_particles s = Inr n" by blast
  have d: "distinct (properties s)" using assms(1) by (simp add: consistent_def)
  show ?thesis
  proof (cases "ne = 0")
    case True
    then show ?thesis using assms(1) ne by (simp add: append_parray_def with_value_def)
  next
    case False
    let ?N = "ne + n"
    let ?A = "set (properties s) \<union> set (properties g)"
    let ?I = "\<lambda>t. same_length t ?N \<and> distinct (properties t) \<and> set (properties t) \<subseteq> ?A"
    let ?f = "\<lambda>p a. case default_values (particle_array s) p of
               None \<Rightarrow> a | Some d \<Rightarrow> fill_from (resize j a (n + nat (int ne))) n d"
    let ?s1 = "map_props ?f (properties s) s"
    have ext: "extend_dh j s (int ne) = Inr ?s1"
      using d n(1) assms(2) n(2) False by (intro extend_dh_ok) simp_all
    have I1: "?I ?s1"
    proof -
      have "same_length ?s1 (n + nat (int ne))"
      proof (rule same_length_map_props[OF n(1)])
        fix p a assume p: "p \<in> set (properties s)"
        from has_defaults_D[OF assms(2) p] obtain dv where
          "default_values (particle_array s) p = Some dv" by auto
        then show "length_a (?f p a) = n + nat (int ne) \<and> n + nat (int ne) \<le> alloc (?f p a)"
          by (simp add: alloc_resize)
      qed
      then show ?thesis using d by (simp add: add.commute)
    qed
    have I2: "?I (state_of (for_each (append_parray_prop j g n ?N) (properties g) t))"
      if "?I t" for t
    proof (rule for_each_invariant[where P = ?I])
      show "?I t" by (rule that)
    next
      fix p u assume p: "p \<in> set (properties g)" and u: "?I u"
      from append_parray_prop_state[of u ?N j g n p] u p
      show "?I (state_of (append_parray_prop j g n ?N p u))" by auto
    qed
    have I3: "?I (state_of (for_each (append_parray_const g) (constants g) t))"
      if "?I t" for t
    proof (rule for_each_invariant[where P = ?I])
      show "?I t" by (rule that)
    next
      fix c u assume c: "c \<in> set (constants g)" and u: "?I u"
      from c assms(4) u have "c \<notin> set (properties u)" by (auto simp: list_all_iff)
      from append_parray_const_state[OF _ this, of ?N g] u
      show "?I (state_of (append_parray_const g c u))" by auto
    qed
    have I4: "consistent t" if "?I t" for t
      using that by (auto simp: consistent_def)
    have I5: "consistent (state_of (if 0 < ne then align_particles t else Inr t))"
      if "?I t" for t
      using I4[OF that] by (simp add: align_particles_consistent)
    have "consistent (state_of
        (and_then (for_each (append_parray_prop j g n ?N) (properties g) ?s1) (\<lambda>s2.
         and_then (for_each (append_parray_const g) (constants g) s2) (\<lambda>s3.
           if 0 < ne then align_particles s3 else Inr s3))))"
    proof (rule and_then_invariant[where P = ?I])
      show "?I (state_of (for_each (append_parray_prop j g n ?N) (properties g) ?s1))"
        using I1 by (rule I2)
    next
      fix t assume "?I t" then show "consistent t" by (rule I4)
    next
      fix t assume t: "?I t"
      show "consistent (state_of
        (and_then (for_each (append_parray_const g) (constants g) t) (\<lambda>s3.
           if 0 < ne then align_particles s3 else Inr s3)))"
      proof (rule and_then_invariant[where P = ?I])
        show "?I (state_of (for_each (append_parray_const g) (constants g) t))"
          using t by (rule I3)
      next
        fix t assume "?I t" then show "consistent t" by (rule I4)
      next
        fix t assume "?I t"
        then show "consistent (state_of (if 0 < ne then align_particles t else Inr t))"
          by (rule I5)
      qed
    qed
    then show ?thesis using ne n(2) False ext
      by (simp add: append_parray_def with_value_def and_then_def)
  qed
qed

lemma exec_consistent:
  assumes "consistent s" and "precondition s op"
  shows "consistent (state_of (exec j s op))"
proof (cases op)
  case (Add_particles pp)
  then show ?thesis using assms by (simp add: add_particles_consistent)
next
  case (Remove_particles ix)
  then show ?thesis using assms by (simp add: remove_particles_consistent)
next
  case (Remove_tagged_particles tag)
  then show ?thesis using assms by (simp add: remove_tagged_particles_consistent)
next
  case (Extend num)
  then show ?thesis using assms by (simp add: extend_dh_consistent)
next
  case (Append_parray g)
  then show ?thesis using assms by (simp add: append_parray_consistent)
qed

subsection \<open>The result of add_particles\<close>

text \<open>The defining equations, for evaluating the operations on the example stores.\<close>

lemmas eval_defs =
  host_def buffer_of_def consistent_def same_length_def has_length_def
  has_defaults_def number_of_particles_def alloc_def array_def
  get_number_of_particles_def with_value_def and_then_def
  add_particles_def add_particles_body_def extend_da_def reserve_def resize_def
  slice_from_neg_start_def fill_from_def update_prop_def check_property_def
  align_particles_def radix_sort_def align_dh_def on_array_def align_da_def cl_take_def
  set_data_def get_num_real_particles_def NUM_REAL_PARTICLES_KNL_def
  extend_dh_def extend_dh_body_def cl_empty_def
  remove_tagged_particles_def remove_particles_def fill_def DeviceArray_init_def
  as_uint32_def slice_to_neg_def
  append_parray_def append_parray_prop_def append_parray_const_def get_device_array_def
  array_of_source_def assign_from_def update_const_def copy_def Let_def
  extract_particles_def extract_prop_def extract_const_def copy_values_def assign_upto_def
  add_property_def

lemma array_grown:
  assumes "has_defaults s" and "p \<in> set (properties s)"
    and "list_all (\<lambda>kv. length (snd kv) = k) pp" and "0 < k"
    and "length_a a = n" and "n \<le> alloc a"
    and "map_of pp p \<noteq> None \<Longrightarrow> alloc a \<le> n + k"
  shows "array (grown j s pp n (k + n) p a) = array a @ new_values s pp k p"
proof (cases "map_of pp p")
  case None
  from has_defaults_D[OF assms(1,2)] obtain d where
    "default_values (particle_array s) p = Some d" by auto
  then show ?thesis
    using None array_resize_fill_from[OF assms(5,6), of j k d]
    by (simp add: grown_def new_values_def add.commute)
next
  case (Some vs)
  from map_of_list_all[OF assms(3) Some] assms(4) have vs: "vs \<noteq> []" "length vs = k" by auto
  from extend_da_ok[OF vs(1), of a j] assms(5,6,7) vs(2) Some show ?thesis
    by (auto simp: grown_def new_values_def)
qed

lemma partition_order_sorted:
  assumes "sorted (map (\<lambda>v. v mod 4) tags)"
  shows "partition_order tags = [0..<length tags]"
proof -
  have "map (\<lambda>i. tags ! i mod 4) [0..<length tags] =
        map (\<lambda>v. v mod 4) (map (\<lambda>i. tags ! i) [0..<length tags])"
    by simp
  also have "\<dots> = map (\<lambda>v. v mod 4) tags" by (simp only: map_nth)
  finally have "sorted (map (\<lambda>i. tags ! i mod 4) [0..<length tags])" using assms by simp
  then show ?thesis unfolding partition_order_def by (rule sort_key_id_if_sorted)
qed

lemma add_particles_result:
  assumes "consistent s" and "has_defaults s" and "''tag'' \<in> set (properties s)"
    and "pp \<noteq> []"
    and "list_all (\<lambda>kv. fst kv \<in> set (properties s) \<and> length (snd kv) = k) pp"
    and "0 < k"
    and "list_all (\<lambda>kv. case data_h s (fst kv) of None \<Rightarrow> True
                        | Some a \<Rightarrow> alloc a \<le> length_a a + k) pp"
    and "data_h s ''tag'' = Some t"
  shows "\<exists>s'. add_particles j s pp = Inr s' \<and> properties s' = properties s \<and>
     (\<forall>p\<in>set (properties s). \<exists>a a'. data_h s p = Some a \<and> data_h s' p = Some a' \<and>
        length_a a' = length_a a + k \<and>
        array a' = map (\<lambda>i. (array a @ new_values s pp k p) ! i)
                     (partition_order (array t @ new_values s pp k ''tag'')))"
proof -
  from assms(1) obtain n where n: "same_length s n" and d: "distinct (properties s)"
    by (auto simp: consistent_def)
  have ne: "properties s \<noteq> []" using assms(3) by auto
  have num: "get_number_of_particles s = Inr n"
    using n ne by (rule get_number_of_particles_same_length)
  have len: "list_all (\<lambda>kv. length (snd kv) = k) pp"
    using assms(5) by (simp add: list_all_iff)
  let ?g = "grown j s pp n (k + n)"
  let ?s1 = "map_props ?g (properties s) s"
  have add: "add_particles j s pp = align_particles ?s1"
    using d n assms(2) num assms(4,5,6) by (rule add_particles_ok)
  have arr: "array (?g p a) = array a @ new_values s pp k p"
    and lens: "length_a (?g p a) = k + n \<and> k + n \<le> alloc (?g p a)"
    if "p \<in> set (properties s)" "data_h s p = Some a" for p a
  proof -
    from same_length_D[OF n that(1)] that(2) have a: "length_a a = n" "n \<le> alloc a" by auto
    have "alloc a \<le> n + k" if "map_of pp p \<noteq> None"
    proof -
      from that obtain vs where "map_of pp p = Some vs" by auto
      from map_of_list_all[OF assms(7) this] \<open>data_h s p = Some a\<close> a show ?thesis by simp
    qed
    then show "array (?g p a) = array a @ new_values s pp k p"
      using assms(2) that(1) len assms(6) a by (intro array_grown) simp_all
    show "length_a (?g p a) = k + n \<and> k + n \<le> alloc (?g p a)"
      using assms(2) that(1) len assms(6) a by (rule grown_lengths)
  qed
  have sl: "same_length ?s1 (k + n)"
    by (rule same_length_map_props[OF n]) (rule lens)
  from same_length_D[OF n assms(3)] assms(8) have t: "length (array t) = n" by auto
  have tag1: "data_h ?s1 ''tag'' = Some (?g ''tag'' t)" using assms(3,8) by simp
  let ?tags = "array t @ new_values s pp k ''tag''"
  have tags: "array (?g ''tag'' t) = ?tags" using assms(3,8) by (rule arr)
  have ltags: "length ?tags = k + n"
    using lens[OF assms(3,8)] tags by (metis length_array_le)
  have perm: "sort_key (\<lambda>i. array (?g ''tag'' t) ! i mod 4) [0..<k + n] = partition_order ?tags"
    by (simp only: partition_order_def tags ltags)
  let ?s' = "(map_props (\<lambda>p. gathered (partition_order ?tags)) (properties ?s1) ?s1)
          \<lparr>num_real_particles := Some (get_num_real_particles
              (map (\<lambda>i. array (?g ''tag'' t) ! i) (partition_order ?tags)) 0)\<rparr>"
  have al: "align_particles ?s1 = Inr ?s'"
    using align_particles_ok[of ?s1 "k + n" "?g ''tag'' t"] d sl assms(3) tag1
    by (simp add: perm del: map_props_fields(5))
  have "\<exists>a a'. data_h s p = Some a \<and> data_h ?s' p = Some a' \<and>
        length_a a' = length_a a + k \<and>
        array a' = map (\<lambda>i. (array a @ new_values s pp k p) ! i) (partition_order ?tags)"
    if p: "p \<in> set (properties s)" for p
  proof -
    from same_length_D[OF n p] obtain a where a: "data_h s p = Some a" "length_a a = n" by auto
    have "length (partition_order ?tags) = k + n"
      unfolding partition_order_def length_sort ltags by simp
    then show ?thesis using p a arr[OF p a(1)] by simp
  qed
  then show ?thesis using add al by auto
qed

lemma length_new_values:
  assumes "has_defaults s" and "p \<in> set (properties s)"
    and "list_all (\<lambda>kv. length (snd kv) = k) pp"
  shows "length (new_values s pp k p) = k"
proof (cases "map_of pp p")
  case None
  from has_defaults_D[OF assms(1,2)] obtain d where
    "default_values (particle_array s) p = Some d" by auto
  then show ?thesis using None by (simp add: new_values_def)
next
  case (Some vs)
  from map_of_list_all[OF assms(3) Some] show ?thesis using Some by (simp add: new_values_def)
qed

subsection \<open>Extraction\<close>

lemma for_each_Inr_invariant:
  assumes "for_each body xs s = Inr s'" and "P s"
    and "\<And>x t t'. x \<in> set xs \<Longrightarrow> P t \<Longrightarrow> body x t = Inr t' \<Longrightarrow> P t'"
  shows "P s'"
  using assms
proof (induction xs arbitrary: s)
  case Nil
  then show ?case by simp
next
  case (Cons x xs)
  from Cons.prems(1) obtain t where t: "body x s = Inr t" "for_each body xs t = Inr s'"
    by (auto split: sum.splits)
  have "P t" by (rule Cons.prems(3)[of x s]) (simp_all add: Cons.prems(2) t(1))
  moreover have "P u'" if "y \<in> set xs" "P u" "body y u = Inr u'" for y u u'
    by (rule Cons.prems(3)[of y u]) (simp_all add: that)
  ultimately show ?case using Cons.IH[OF t(2)] by blast
qed

lemma on_array_Inr:
  "on_array p m t = Inr t' \<Longrightarrow> \<exists>b. t' = t\<lparr>data_h := (data_h t)(p \<mapsto> b)\<rparr>"
  by (auto simp: on_array_def split: option.splits sum.splits)

lemma align_dh_frame:
  assumes "align_dh s ix = Inr s'"
  shows "properties s' = properties s \<and> constants s' = constants s \<and>
         particle_array s' = particle_array s \<and>
         (\<forall>c. c \<notin> set (properties s) \<longrightarrow> data_h s' c = data_h s c)"
  using assms unfolding align_dh_def
proof (rule for_each_Inr_invariant)
  show "properties s = properties s \<and> constants s = constants s \<and>
         particle_array s = particle_array s \<and>
         (\<forall>c. c \<notin> set (properties s) \<longrightarrow> data_h s c = data_h s c)" by simp
next
  fix p t t'
  assume p: "p \<in> set (properties s)"
    and t: "properties t = properties s \<and> constants t = constants s \<and>
         particle_array t = particle_array s \<and>
         (\<forall>c. c \<notin> set (properties s) \<longrightarrow> data_h t c = data_h s c)"
    and b: "on_array p (\<lambda>a. align_da a ix) t = Inr t'"
  from on_array_Inr[OF b] obtain a' where "t' = t\<lparr>data_h := (data_h t)(p \<mapsto> a')\<rparr>" by auto
  then show "properties t' = properties s \<and> constants t' = constants s \<and>
         particle_array t' = particle_array s \<and>
         (\<forall>c. c \<notin> set (properties s) \<longrightarrow> data_h t' c = data_h s c)"
    using p t by auto
qed

lemma align_particles_frame:
  assumes "align_particles s = Inr s'"
  shows "properties s' = properties s \<and> constants s' = constants s \<and>
         particle_array s' = particle_array s \<and>
         (\<forall>c. c \<notin> set (properties s) \<longrightarrow> data_h s' c = data_h s c)"
proof -
  from assms obtain ix s1 where "align_dh s ix = Inr s1"
    and s': "\<exists>x. s' = s1\<lparr>num_real_particles := x\<rparr>"
    by (auto simp: align_particles_def with_value_def and_then_def
        split: option.splits sum.splits)
  from align_dh_frame[OF this(1)] s' show ?thesis by auto
qed

lemma extract_const_Inr:
  "extract_const s d u = Inr u' \<Longrightarrow> \<exists>b. data_h s d = Some b \<and> u' = update_const u d (copy b)"
  by (auto simp: extract_const_def split: option.splits)

lemma extract_const_keeps:
  assumes "for_each (extract_const s) ds t = Inr t'"
  shows "set (constants t) \<subseteq> set (constants t') \<and> properties t' = properties t"
  using assms
proof (rule for_each_Inr_invariant)
  show "set (constants t) \<subseteq> set (constants t) \<and> properties t = properties t" by simp
next
  fix d u u'
  assume "set (constants t) \<subseteq> set (constants u) \<and> properties u = properties t"
    and "extract_const s d u = Inr u'"
  then show "set (constants t) \<subseteq> set (constants u') \<and> properties u' = properties t"
    by (auto simp: update_const_def dest!: extract_const_Inr)
qed

lemma extract_const_other:
  assumes "for_each (extract_const s) ds t = Inr t'" and "c \<notin> set ds"
  shows "data_h t' c = data_h t c"
  using assms(1)
proof (rule for_each_Inr_invariant)
  show "data_h t c = data_h t c" by simp
next
  fix d u u'
  assume "d \<in> set ds" and "data_h u c = data_h t c" and "extract_const s d u = Inr u'"
  then show "data_h u' c = data_h t c"
    using assms(2) by (auto simp: update_const_def dest!: extract_const_Inr)
qed

lemma extract_const_loop:
  assumes "for_each (extract_const s) cs r = Inr r'"
  shows "properties r' = properties r \<and> set cs \<subseteq> set (constants r') \<and>
         (\<forall>c\<in>set cs. \<exists>b. data_h s c = Some b \<and> data_h r' c = Some (copy b))"
  using assms
proof (induction cs arbitrary: r)
  case Nil
  then show ?case by simp
next
  case (Cons c cs)
  from Cons.prems obtain t where t: "extract_const s c r = Inr t"
    "for_each (extract_const s) cs t = Inr r'"
    by (auto split: sum.splits)
  from extract_const_Inr[OF t(1)] obtain b where
    b: "data_h s c = Some b" "t = update_const r c (copy b)" by auto
  note ih = Cons.IH[OF t(2)]
  have c_in: "c \<in> set (constants r')"
    using extract_const_keeps[OF t(2)] b(2) by (auto simp: update_const_def)
  have c_data: "data_h r' c = Some (copy b)"
  proof (cases "c \<in> set cs")
    case True
    then show ?thesis using ih b by auto
  next
    case False
    from extract_const_other[OF t(2) False] show ?thesis
      using b(2) by (simp add: update_const_def)
  qed
  have "properties r' = properties r" using ih b(2) by (simp add: update_const_def)
  then show ?case using ih b c_in c_data by auto
qed

lemma extract_particles_constants:
  assumes "extract_particles j ra s indices props = Inr r" and "indices \<noteq> []"
  shows "list_all (\<lambda>c. c \<in> set (constants r) \<and>
            (c \<notin> set (properties r) \<longrightarrow>
               (\<exists>b. data_h s c = Some b \<and> data_h r c = Some (copy b)))) (constants s)"
proof -
  let ?names = "case props of None \<Rightarrow> properties s | Some ps \<Rightarrow> ps"
  from assms obtain r1 r2 r3 where
    r1: "for_each (extract_prop j s indices) ?names ra = Inr r1"
    and r2: "for_each (extract_const s) (constants s) r1 = Inr r2"
    and r3: "align_particles r2 = Inr r3"
    and r: "\<exists>pa. r = r3\<lparr>particle_array := pa\<rparr>"
    by (auto simp: extract_particles_def Let_def and_then_def split: sum.splits prod.splits)
  note c = extract_const_loop[OF r2]
  note f = align_particles_frame[OF r3]
  show ?thesis
    unfolding list_all_iff
  proof
    fix c' assume c': "c' \<in> set (constants s)"
    from c c' obtain b where b: "data_h s c' = Some b" "data_h r2 c' = Some (copy b)"
      and m: "c' \<in> set (constants r2)" by auto
    from r f have pr: "properties r = properties r2" "constants r = constants r2" by auto
    have "data_h r c' = Some (copy b)" if "c' \<notin> set (properties r)"
      using that r f b pr by auto
    then show "c' \<in> set (constants r) \<and>
            (c' \<notin> set (properties r) \<longrightarrow>
               (\<exists>b. data_h s c' = Some b \<and> data_h r c' = Some (copy b)))"
      using m pr b by auto
  qed
qed

subsection \<open>Capacity\<close>

lemma resize_capacity: "length_a (resize j a n) \<le> alloc (resize j a n)"
  by (simp add: alloc_resize)

lemma append_da_ok:
  assumes "length_a a \<le> alloc a" and "0 < alloc a"
  shows "\<exists>b. append_da j a v = Inr b \<and> array b = array a @ [v] \<and>
             length_a b = length_a a + 1 \<and> length_a b \<le> alloc b"
proof -
  define a1 where "a1 = (if length_a a \<ge> alloc a then reserve j a (2 * length_a a) else a)"
  have al: "alloc a1 = (if length_a a \<ge> alloc a then 2 * length_a a else alloc a)"
    using assms by (auto simp: a1_def alloc_reserve)
  have la: "length_a a1 = length_a a" by (simp add: a1_def)
  have lt: "length_a a < alloc a1" using assms al by auto
  have tk: "take (length_a a) (data_a a1) = array a"
    using assms(1) by (simp add: a1_def array_def reserve_def alloc_def)
  define b where "b = a1\<lparr>data_a := (data_a a1)[length_a a1 := v], length_a := length_a a1 + 1\<rparr>"
  have ex: "append_da j a v = Inr b"
    unfolding append_da_def Let_def a1_def[symmetric] b_def using lt la by simp
  have lb: "length_a a < length (data_a a1)" using lt by (simp add: alloc_def)
  have "array b = take (Suc (length_a a)) ((data_a a1)[length_a a := v])"
    by (simp add: array_def b_def la)
  also have "\<dots> = take (length_a a) (data_a a1) @ [v]"
    using lb by (simp add: take_Suc_conv_app_nth)
  finally have ab: "array b = array a @ [v]" using tk by simp
  have "alloc b = alloc a1" by (simp add: alloc_def b_def)
  moreover have "length_a b = length_a a + 1" by (simp add: b_def la)
  ultimately show ?thesis using ex ab lt by auto
qed

lemma append_da_capacity:
  assumes "length_a a \<le> alloc a"
  shows "length_a (state_of (append_da j a v)) \<le> alloc (state_of (append_da j a v))"
proof (cases "0 < alloc a")
  case True
  from append_da_ok[OF assms True, of j v] show ?thesis by auto
next
  case False
  then show ?thesis using assms by (simp add: append_da_def alloc_def reserve_def)
qed

lemma extend_da_capacity:
  assumes "length_a a \<le> alloc a"
  shows "length_a (state_of (extend_da j a vs)) \<le> alloc (state_of (extend_da j a vs))"
proof (cases "vs = []")
  case True
  then show ?thesis using extend_da_nil[OF assms, of j] assms by simp
next
  case False
  from extend_da_ok[OF False assms, of j] show ?thesis by auto
qed

subsection \<open>The partition made by \<^verbatim>\<open>align_particles\<close>\<close>

lemma sorted_zero_prefix:
  assumes "sorted xs" and "\<forall>v\<in>set xs. (0::int) \<le> v"
  shows "xs = replicate (length (filter (\<lambda>v. v = 0) xs)) 0 @ filter (\<lambda>v. v \<noteq> 0) xs"
  using assms
proof (induction xs)
  case Nil
  then show ?case by simp
next
  case (Cons x xs)
  show ?case
  proof (cases "x = 0")
    case True
    then show ?thesis using Cons by simp
  next
    case False
    then have "\<forall>v\<in>set xs. v \<noteq> 0" using Cons.prems by fastforce
    then have "filter (\<lambda>v. v = 0) xs = []" "filter (\<lambda>v. v \<noteq> 0) xs = xs"
      by (simp_all add: filter_empty_conv filter_id_conv)
    then show ?thesis using False by simp
  qed
qed

lemma sorted_zero_iff:
  assumes "sorted xs" and "\<forall>v\<in>set xs. (0::int) \<le> v" and "i < length xs"
  shows "xs ! i = 0 \<longleftrightarrow> i < length (filter (\<lambda>v. v = 0) xs)"
proof -
  let ?z = "length (filter (\<lambda>v. v = 0) xs)"
  let ?r = "filter (\<lambda>v. v \<noteq> 0) xs"
  have xs: "xs = replicate ?z 0 @ ?r" using assms(1,2) by (rule sorted_zero_prefix)
  show ?thesis
  proof (cases "i < ?z")
    case True
    have "xs ! i = (replicate ?z 0 @ ?r) ! i" using xs by simp
    then show ?thesis using True by (simp add: nth_append)
  next
    case False
    have "length xs = ?z + length ?r" using xs by (metis length_append length_replicate)
    then have "i - ?z < length ?r" using False assms(3) by simp
    then have "?r ! (i - ?z) \<in> set ?r" by (rule nth_mem)
    then have "?r ! (i - ?z) \<noteq> 0" by simp
    moreover have "xs ! i = (replicate ?z 0 @ ?r) ! i" using xs by simp
    ultimately show ?thesis using False by (simp add: nth_append)
  qed
qed

lemma fold_single_write:
  assumes "\<forall>i<n. P i \<longleftrightarrow> (i = z \<and> c)"
  shows "fold (\<lambda>i acc. if P i then i else acc) [0..<n] a = (if c \<and> z < n then z else a)"
  using assms
proof (induction n)
  case 0
  then show ?case by simp
next
  case (Suc n)
  then have "fold (\<lambda>i acc. if P i then i else acc) [0..<n] a = (if c \<and> z < n then z else a)"
    by simp
  moreover have "P n \<longleftrightarrow> (n = z \<and> c)" using Suc.prems by simp
  ultimately show ?case by auto
qed

lemma get_num_real_particles_sorted:
  assumes "sorted xs" and "\<forall>v\<in>set xs. (0::int) \<le> v"
  shows "get_num_real_particles xs 0 =
     (if length (filter (\<lambda>v. v = 0) xs) = length xs then 0
      else length (filter (\<lambda>v. v = 0) xs))"
proof -
  define z where "z = length (filter (\<lambda>v. v = 0) xs)"
  let ?P = "\<lambda>i. i \<noteq> 0 \<and> xs ! i \<noteq> xs ! (i - 1) \<and> xs ! (i - 1) = 0"
  have "?P i \<longleftrightarrow> (i = z \<and> 1 \<le> z)" if "i < length xs" for i
  proof (cases "i = 0")
    case True
    then show ?thesis by auto
  next
    case False
    then have p: "i - 1 < length xs" using that by simp
    have "xs ! (i - 1) = 0 \<longleftrightarrow> i - 1 < z"
      unfolding z_def using assms p by (rule sorted_zero_iff)
    moreover have "xs ! i = 0 \<longleftrightarrow> i < z"
      unfolding z_def using assms that by (rule sorted_zero_iff)
    ultimately show ?thesis using False by auto
  qed
  then have "fold (\<lambda>i acc. if ?P i then i else acc) [0..<length xs] 0 =
      (if 1 \<le> z \<and> z < length xs then z else 0)"
    by (intro fold_single_write) simp
  moreover have "z \<le> length xs" by (simp add: z_def)
  ultimately have "get_num_real_particles xs 0 = (if z = length xs then 0 else z)"
    unfolding get_num_real_particles_def NUM_REAL_PARTICLES_KNL_def by auto
  then show ?thesis by (simp add: z_def)
qed

lemma count_after_sort:
  "length (filter (\<lambda>v. v = c) (map (\<lambda>i. xs ! i) (sort_key f [0..<length xs]))) =
   length (filter (\<lambda>v. v = c) xs)"
proof -
  have "filter (\<lambda>v. v = c) (map (\<lambda>i. xs ! i) (sort_key f [0..<length xs])) =
      map (\<lambda>i. xs ! i) (filter (\<lambda>i. xs ! i = c) (sort_key f [0..<length xs]))"
    by (simp add: filter_map comp_def)
  also have "filter (\<lambda>i. xs ! i = c) (sort_key f [0..<length xs]) =
      sort_key f (filter (\<lambda>i. xs ! i = c) [0..<length xs])"
    by (rule filter_sort)
  finally have "length (filter (\<lambda>v. v = c) (map (\<lambda>i. xs ! i) (sort_key f [0..<length xs]))) =
      length (filter (\<lambda>i. xs ! i = c) [0..<length xs])"
    by simp
  also have "\<dots> = length (map (\<lambda>i. xs ! i) (filter (\<lambda>i. xs ! i = c) [0..<length xs]))"
    by simp
  also have "map (\<lambda>i. xs ! i) (filter (\<lambda>i. xs ! i = c) [0..<length xs]) =
      filter (\<lambda>v. v = c) (map (\<lambda>i. xs ! i) [0..<length xs])"
    by (simp add: filter_map comp_def)
  also have "map (\<lambda>i. xs ! i) [0..<length xs] = xs" by (rule map_nth)
  finally show ?thesis .
qed

lemma align_particles_partition:
  assumes "consistent s" and "''tag'' \<in> set (properties s)"
    and "data_h s ''tag'' = Some t"
    and "list_all (\<lambda>v. 0 \<le> v \<and> v < 4) (array t)"
  shows "\<exists>s' t'. align_particles s = Inr s' \<and> data_h s' ''tag'' = Some t' \<and>
     length (array t') = length (array t) \<and>
     (\<forall>i<length (array t).
        array t' ! i = 0 \<longleftrightarrow> i < length (filter (\<lambda>v. v = 0) (array t))) \<and>
     num_real_particles s' =
       Some (if length (filter (\<lambda>v. v = 0) (array t)) = length (array t) then 0
             else length (filter (\<lambda>v. v = 0) (array t)))"
proof -
  from assms(1) obtain n where n: "same_length s n" and d: "distinct (properties s)"
    by (auto simp: consistent_def)
  from same_length_D[OF n assms(2)] assms(3) have lt: "length (array t) = n" by auto
  let ?tags = "array t"
  let ?perm = "sort_key (\<lambda>i. ?tags ! i mod 4) [0..<n]"
  let ?tags' = "map (\<lambda>i. ?tags ! i) ?perm"
  let ?s' = "(map_props (\<lambda>p. gathered ?perm) (properties s) s)
          \<lparr>num_real_particles := Some (get_num_real_particles ?tags' 0)\<rparr>"
  have al: "align_particles s = Inr ?s'"
    using d n assms(2,3) by (rule align_particles_ok)
  have t': "data_h ?s' ''tag'' = Some (gathered ?perm t)" using assms(2,3) by simp
  have arr: "array (gathered ?perm t) = ?tags'" by simp
  have key: "?tags ! i mod 4 = ?tags ! i" if "i < n" for i
  proof -
    have "?tags ! i \<in> set ?tags" using that lt by simp
    then show ?thesis using assms(4) by (auto simp: list_all_iff)
  qed
  have "sorted (map (\<lambda>i. ?tags ! i mod 4) ?perm)" by (rule sorted_sort_key)
  moreover have "map (\<lambda>i. ?tags ! i mod 4) ?perm = ?tags'"
    by (rule map_cong) (auto simp: key)
  ultimately have sorted: "sorted ?tags'" by simp
  have nonneg: "\<forall>v\<in>set ?tags'. 0 \<le> v"
    using assms(4) lt by (auto simp: list_all_iff)
  have cnt: "length (filter (\<lambda>v. v = 0) ?tags') = length (filter (\<lambda>v. v = 0) ?tags)"
    using count_after_sort[of 0 ?tags "\<lambda>i. ?tags ! i mod 4"] lt by simp
  have len: "length ?tags' = n" by simp
  have part: "?tags' ! i = 0 \<longleftrightarrow> i < length (filter (\<lambda>v. v = 0) ?tags)" if "i < n" for i
    using sorted_zero_iff[OF sorted nonneg, of i] that len cnt by simp
  have nrp: "get_num_real_particles ?tags' 0 =
      (if length (filter (\<lambda>v. v = 0) ?tags) = n then 0
       else length (filter (\<lambda>v. v = 0) ?tags))"
    using get_num_real_particles_sorted[OF sorted nonneg] cnt len by simp
  show ?thesis
    apply (rule exI[of _ ?s'], rule exI[of _ "gathered ?perm t"])
    using al t' part nrp lt by (simp del: map_props_fields)
qed

subsection \<open>Order of the indices, and extraction that returns\<close>

text \<open>
  The result of \<^verbatim>\<open>remove_particles\<close> does not depend on the order of the indices, so
  the order chosen for \<^verbatim>\<open>REMOVE_INDICES_KNL\<close> does not matter.
\<close>

lemma remove_particles_order_irrelevant:
  assumes "consistent s" and "distinct ix" and "distinct ix'" and "set ix = set ix'"
    and "list_all (\<lambda>i. i < number_of_particles s) ix"
  shows "remove_particles j s ix = remove_particles j s ix'"
proof -
  from get_number_of_particles_consistent[OF assms(1)] obtain n where
    n: "same_length s n" "get_number_of_particles s = Inr n" by blast
  have d: "distinct (properties s)" using assms(1) by (simp add: consistent_def)
  have r: "list_all (\<lambda>i. i < n) ix"
    using assms(5) n(2) by (simp add: number_of_particles_eq)
  then have r': "list_all (\<lambda>i. i < n) ix'" using assms(4) by (simp add: list_all_iff)
  have "survivors n ix = survivors n ix'" using assms(4) by (simp add: survivors_def)
  moreover have "ix = [] \<longleftrightarrow> ix' = []" using assms(4) by auto
  ultimately show ?thesis
    unfolding remove_particles_distinct[OF d n assms(2) r]
      remove_particles_distinct[OF d n assms(3) r']
    by simp
qed

lemma copy_values_ok:
  assumes "indices \<noteq> []" and "list_all (\<lambda>i. i < length (array a)) indices"
  shows "copy_values a indices (DeviceArray_init j (length indices)) =
         Inr \<lparr>data_a = map (\<lambda>i. array a ! i) indices, length_a = length indices\<rparr>"
  using assms
  by (simp add: copy_values_def cl_take_def with_value_def assign_upto_def
      DeviceArray_init_def cl_empty_def array_def)

lemma extract_prop_loop:
  assumes "distinct ps" and "set ps \<inter> set (properties r) = {}"
    and "indices \<noteq> []" and "list_all (\<lambda>i. i < n) indices"
    and "\<forall>p\<in>set ps. \<exists>a d. data_h s p = Some a \<and> length (array a) = n \<and>
            default_values (particle_array s) p = Some d"
  shows "\<exists>r'. for_each (extract_prop j s indices) ps r = Inr r' \<and>
           properties r' = properties r @ ps \<and> constants r' = constants r \<and>
           (\<forall>p\<in>set ps. has_length r' (length indices) p) \<and>
           (\<forall>q. q \<notin> set ps \<longrightarrow> data_h r' q = data_h r q)"
  using assms(1,2,5)
proof (induction ps arbitrary: r)
  case Nil
  then show ?case by simp
next
  case (Cons p ps)
  from Cons.prems(3) obtain a d where a: "data_h s p = Some a" "length (array a) = n"
    "default_values (particle_array s) p = Some d" by auto
  let ?dst = "\<lparr>data_a = map (\<lambda>i. array a ! i) indices, length_a = length indices\<rparr>"
  let ?r1 = "update_prop (r\<lparr>particle_array := add_property (particle_array r) p d\<rparr>) p ?dst"
  have cv: "copy_values a indices (DeviceArray_init j (length indices)) = Inr ?dst"
    using assms(3,4) a(2) by (intro copy_values_ok) simp_all
  have step: "extract_prop j s indices p r = Inr ?r1"
    using a cv by (simp add: extract_prop_def)
  have p1: "properties ?r1 = properties r @ [p]"
    using Cons.prems(2) by (simp add: update_prop_def)
  have "\<exists>r'. for_each (extract_prop j s indices) ps ?r1 = Inr r' \<and>
           properties r' = properties ?r1 @ ps \<and> constants r' = constants ?r1 \<and>
           (\<forall>p\<in>set ps. has_length r' (length indices) p) \<and>
           (\<forall>q. q \<notin> set ps \<longrightarrow> data_h r' q = data_h ?r1 q)"
  proof (rule Cons.IH)
    show "distinct ps" using Cons.prems(1) by simp
    show "set ps \<inter> set (properties ?r1) = {}"
      using Cons.prems(1,2) by (auto simp: p1)
    show "\<forall>p\<in>set ps. \<exists>a d. data_h s p = Some a \<and> length (array a) = n \<and>
            default_values (particle_array s) p = Some d"
      using Cons.prems(3) by simp
  qed
  then obtain r' where r': "for_each (extract_prop j s indices) ps ?r1 = Inr r'"
    "properties r' = properties ?r1 @ ps" "constants r' = constants ?r1"
    "\<forall>p\<in>set ps. has_length r' (length indices) p"
    "\<forall>q. q \<notin> set ps \<longrightarrow> data_h r' q = data_h ?r1 q"
    by blast
  have "p \<notin> set ps" using Cons.prems(1) by simp
  then have "data_h r' p = Some ?dst" using r'(5) by (simp add: update_prop_def)
  then have hp: "has_length r' (length indices) p" by (simp add: has_length_def alloc_def)
  have other: "\<forall>q. q \<notin> set (p # ps) \<longrightarrow> data_h r' q = data_h r q"
    using r'(5) by (simp add: update_prop_def)
  show ?case
    using step r'(1,2,3,4) p1 hp other
    by (intro exI[of _ r']) (simp add: update_prop_def)
qed

lemma extract_const_loop_ok:
  assumes "\<forall>c\<in>set cs. data_h s c \<noteq> None"
  shows "\<exists>r'. for_each (extract_const s) cs r = Inr r'"
  using assms
proof (induction cs arbitrary: r)
  case Nil
  then show ?case by simp
next
  case (Cons c cs)
  then obtain b where "data_h s c = Some b" by auto
  then show ?case using Cons by (simp add: extract_const_def)
qed

lemma extract_particles_returns:
  assumes "consistent s" and "has_defaults s" and "''tag'' \<in> set (properties s)"
    and "indices \<noteq> []" and "list_all (\<lambda>i. i < number_of_particles s) indices"
    and "properties result_array = []"
    and "list_all (\<lambda>c. data_h s c \<noteq> None \<and> c \<notin> set (properties s)) (constants s)"
  shows "\<exists>r. extract_particles j result_array s indices None = Inr r"
proof -
  from assms(1) obtain n where n: "same_length s n" and d: "distinct (properties s)"
    by (auto simp: consistent_def)
  have ne: "properties s \<noteq> []" using assms(3) by auto
  have num: "number_of_particles s = n"
    using get_number_of_particles_same_length[OF n ne] by (rule number_of_particles_eq)
  let ?k = "length indices"
  have "\<forall>p\<in>set (properties s). \<exists>a d. data_h s p = Some a \<and> length (array a) = n \<and>
            default_values (particle_array s) p = Some d"
    using same_length_D[OF n] has_defaults_D[OF assms(2)] by blast
  from extract_prop_loop[OF d _ assms(4) _ this, of result_array j] assms(5,6) num
  obtain r1 where r1: "for_each (extract_prop j s indices) (properties s) result_array = Inr r1"
    "properties r1 = properties s"
    "\<forall>p\<in>set (properties s). has_length r1 ?k p"
    by auto
  from extract_const_loop_ok[of "constants s" s r1] assms(7) obtain r2 where
    r2: "for_each (extract_const s) (constants s) r1 = Inr r2"
    by (auto simp: list_all_iff)
  have p2: "properties r2 = properties s"
    using extract_const_keeps[OF r2] r1(2) by simp
  have "data_h r2 p = data_h r1 p" if "p \<in> set (properties s)" for p
  proof (rule extract_const_other[OF r2])
    show "p \<notin> set (constants s)" using that assms(7) by (auto simp: list_all_iff)
  qed
  then have sl: "same_length r2 ?k"
    using r1(3) p2 by (simp add: same_length_def list_all_iff has_length_def)
  from same_length_D[OF sl, of "''tag''"] assms(3) p2 obtain t where
    t: "data_h r2 ''tag'' = Some t" by auto
  have "\<exists>r3. align_particles r2 = Inr r3"
    using align_particles_ok[of r2 ?k t] d sl assms(3) t p2 by simp
  then show ?thesis
    using r1(1) r2 assms(4) by (auto simp: extract_particles_def and_then_def)
qed

section \<open>Properties\<close>

subsection \<open>Claims settled by running the source on one input\<close>

text \<open>
  C1 (partition invariant of \<^verbatim>\<open>align_particles\<close>, with
  \<^verbatim>\<open>num_real_particles = n\<close> when every tag is 0). On the store of two particles
  whose tags are \<open>[0, 0]\<close>, \<^verbatim>\<open>align_particles\<close> returns normally, leaves the tags
  \<open>[0, 0]\<close> and sets \<^verbatim>\<open>num_real_particles\<close> to 0: the kernel writes only at a
  change of tag, and the slot starts at 0. So position 0 is not below
  \<^verbatim>\<open>num_real_particles\<close> and has tag 0, and \<^verbatim>\<open>num_real_particles\<close> is not 2.
  Lemma \<open>align_particles_partition\<close> shows that this is the only case that fails
  for tags from 0 to 3: the particles with tag 0 come first, and
  \<^verbatim>\<open>num_real_particles\<close> is their number unless all particles have tag 0.
\<close>

theorem align_particles_all_real:
  "raised (align_particles store_real) = None \<and>
   num_real_particles (state_of (align_particles store_real)) = Some 0 \<and>
   map_option array (data_h (state_of (align_particles store_real)) ''tag'') = Some [0, 0]"
  by (simp add: store_real_def buffer_of_def align_particles_def with_value_def
      get_number_of_particles_def array_def radix_sort_def and_then_def align_dh_def
      on_array_def align_da_def cl_take_def set_data_def get_num_real_particles_def
      NUM_REAL_PARTICLES_KNL_def raised_def state_of_def upt_conv_Cons)

text \<open>
  C2 (\<^verbatim>\<open>remove\<close> deletes exactly the given positions, the empty set included).
  Removing no index from the buffer \<open>[5, 6, 7]\<close> leaves the empty buffer: the new
  contents are \<^verbatim>\<open>new_array.array[:-len(indices)]\<close>, which is
  \<^verbatim>\<open>new_array.array[:0]\<close> when \<^verbatim>\<open>indices\<close> is empty. For a non-empty list
  of distinct positions the buffer is left as the claim says (lemma
  \<open>remove_da_distinct\<close>).
\<close>

theorem remove_no_index_empties:
  "remove_da j (buffer_of [5, 6, 7]) [] = Inr \<lparr>data_a = [], length_a = 0\<rparr>"
  by (simp add: buffer_of_def remove_da_def with_value_def fill_def DeviceArray_init_def
      cl_empty_def array_def copy_def read_at_def set_data_def slice_to_neg_def
      upt_conv_Cons)

text \<open>
  C3 (\<^verbatim>\<open>extend\<close> places the values at the logical positions from the old length
  on, also with spare capacity and on an empty buffer). The values are written to the
  last slots of the allocated region. A buffer of length 1 over the region
  \<open>[1, 2, 3]\<close>, extended by \<open>[9]\<close>, has the logical contents \<open>[1, 2]\<close>: position 1
  does not hold 9. A new buffer \<^verbatim>\<open>DeviceArray(dtype, 0)\<close> extended by \<open>[1, 2]\<close>
  has the logical contents of two slots that were never written. Where the allocated
  region is not larger than the old length plus the number of values, the values are
  appended (lemma \<open>extend_da_ok\<close>).
\<close>

theorem extend_writes_region_end:
  "extend_da j \<lparr>data_a = [1, 2, 3], length_a = 1\<rparr> [9] =
     Inr \<lparr>data_a = [1, 2, 9], length_a = 2\<rparr> \<and>
   array (state_of (extend_da j \<lparr>data_a = [1, 2, 3], length_a = 1\<rparr> [9])) = [1, 2] \<and>
   array (state_of (extend_da j (DeviceArray_init j 0) [1, 2])) = [j 0, j 1]"
  by (simp add: extend_da_def alloc_def reserve_def slice_from_neg_start_def
      DeviceArray_init_def cl_empty_def state_of_def array_def upt_conv_Cons)

text \<open>
  C4 (\<^verbatim>\<open>append_parray\<close> registers a property that only the other store has).
  Merging a store with the properties \<^verbatim>\<open>tag\<close> and \<^verbatim>\<open>x\<close> into a store that
  has only \<^verbatim>\<open>tag\<close> raises \<^verbatim>\<open>KeyError\<close>: the branch for a property "not there
  in self" reads \<^verbatim>\<open>self._data[prop_name].dtype\<close>. The store is left extended by one
  particle, without the property.
\<close>

theorem append_parray_new_property_raises:
  "raised (append_parray j store_one store_one_x) = Some (KeyError ''x'') \<and>
   properties (state_of (append_parray j store_one store_one_x)) = [''tag''] \<and>
   data_h (state_of (append_parray j store_one store_one_x)) ''x'' = None \<and>
   map_option array (data_h (state_of (append_parray j store_one store_one_x)) ''tag'') =
     Some [0, 0]"
  by (simp add: store_one_def store_one_x_def host_def buffer_of_def append_parray_def
      with_value_def and_then_def get_number_of_particles_def array_def extend_dh_def
      extend_dh_body_def resize_def reserve_def alloc_def cl_empty_def fill_from_def
      update_prop_def append_parray_prop_def get_device_array_def array_of_source_def
      on_array_def assign_from_def raised_def state_of_def upt_conv_Cons)

text \<open>
  C9 (\<^verbatim>\<open>append\<close> always succeeds, growing from a nonzero floor). A buffer whose
  allocated region is empty, as \<^verbatim>\<open>set_data\<close> leaves it after \<^verbatim>\<open>remove\<close> has
  taken the only element away, cannot be appended to: \<^verbatim>\<open>reserve(2 * 0)\<close> allocates
  nothing and the write at index 0 raises \<^verbatim>\<open>IndexError\<close>. On a buffer with a
  non-empty allocated region \<^verbatim>\<open>append\<close> does succeed, and the length stays within
  the region under \<^verbatim>\<open>append\<close>, \<^verbatim>\<open>extend\<close> and \<^verbatim>\<open>resize\<close> (lemmas
  \<open>append_da_ok\<close>, \<open>append_da_capacity\<close>, \<open>extend_da_capacity\<close>,
  \<open>resize_capacity\<close>).
\<close>

theorem append_zero_capacity_raises:
  "remove_da j (buffer_of [7]) [0] = Inr \<lparr>data_a = [], length_a = 0\<rparr> \<and>
   append_da j' \<lparr>data_a = [], length_a = 0\<rparr> v =
     Inl (IndexError, \<lparr>data_a = [], length_a = 0\<rparr>)"
  by (simp add: buffer_of_def remove_da_def with_value_def fill_def DeviceArray_init_def
      cl_empty_def array_def copy_def read_at_def set_data_def slice_to_neg_def
      append_da_def alloc_def reserve_def)

subsection \<open>Claims proved for every input\<close>

text \<open>
  C7 (\<^verbatim>\<open>remove\<close> and \<^verbatim>\<open>remove_particles\<close> raise exactly when more indices are
  given than there are elements or particles). \<^verbatim>\<open>ValueError\<close> is raised exactly
  when the number of indices exceeds the length of the buffer, respectively the number
  of particles of the store; no other step of either method raises it. When the number
  does not exceed the count, the call returns without raising: for a buffer whose length
  lies within its allocated region and indices that are positions of the buffer, and for
  a consistent store that has the property \<^verbatim>\<open>tag\<close> and indices that are
  positions of particles. (An index outside the buffer is an access outside a device
  array in a kernel, and the re-partition after a removal reads \<^verbatim>\<open>tag\<close>.)
\<close>

theorem remove_raises_exactly_on_too_many_indices:
  "((\<exists>a'. remove_da j a ix = Inl (ValueError, a')) \<longleftrightarrow> length_a a < length ix) \<and>
   (length ix \<le> length_a a \<and> length_a a \<le> alloc a \<and> list_all (\<lambda>i. i < length_a a) ix
      \<longrightarrow> raised (remove_da j a ix) = None) \<and>
   ((\<exists>s'. remove_particles j s ix' = Inl (ValueError, s')) \<longleftrightarrow>
      (\<exists>n. get_number_of_particles s = Inr n \<and> n < length ix')) \<and>
   (consistent s \<and> ''tag'' \<in> set (properties s) \<and>
    length ix' \<le> number_of_particles s \<and>
    list_all (\<lambda>i. i < number_of_particles s) ix'
      \<longrightarrow> raised (remove_particles j s ix') = None)"
  using remove_da_value_error[of j a ix] remove_da_returns[of ix a j]
    remove_particles_value_error[of j s ix'] remove_particles_returns[of s ix' j]
  by blast

theorem remove_raises_exactly_on_too_many_indices_witness:
  "length [1::nat] \<le> length_a (buffer_of [5, 6, 7]) \<and>
   length_a (buffer_of [5, 6, 7]) \<le> alloc (buffer_of [5, 6, 7]) \<and>
   list_all (\<lambda>i. i < length_a (buffer_of [5, 6, 7])) [1] \<and>
   raised (remove_da (\<lambda>i. 0) (buffer_of [5, 6, 7]) [1]) = None \<and>
   consistent store_one_x \<and> ''tag'' \<in> set (properties store_one_x) \<and>
   length [0::nat] \<le> number_of_particles store_one_x \<and>
   list_all (\<lambda>i. i < number_of_particles store_one_x) [0] \<and>
   raised (remove_particles (\<lambda>i. 0) store_one_x [0]) = None \<and>
   (\<exists>a'. remove_da (\<lambda>i. 0) (buffer_of [5, 6, 7]) [0, 1, 2, 0] = Inl (ValueError, a')) \<and>
   (\<exists>s'. remove_particles (\<lambda>i. 0) store_one_x [0, 0] = Inl (ValueError, s'))"
proof -
  have 1: "length [1::nat] \<le> length_a (buffer_of [5, 6, 7]) \<and>
   length_a (buffer_of [5, 6, 7]) \<le> alloc (buffer_of [5, 6, 7]) \<and>
   list_all (\<lambda>i. i < length_a (buffer_of [5, 6, 7])) [1]"
    by (simp add: buffer_of_def alloc_def)
  have n: "get_number_of_particles store_one_x = Inr 1"
    by (simp add: get_number_of_particles_def store_one_x_def buffer_of_def array_def)
  have 2: "consistent store_one_x \<and> ''tag'' \<in> set (properties store_one_x) \<and>
   length [0::nat] \<le> number_of_particles store_one_x \<and>
   list_all (\<lambda>i. i < number_of_particles store_one_x) [0]"
    unfolding consistent_def same_length_def number_of_particles_def n
    by (auto simp: store_one_x_def buffer_of_def has_length_def alloc_def intro!: exI[of _ 1])
  have 3: "length_a (buffer_of [5, 6, 7]) < length [0::nat, 1, 2, 0]"
    by (simp add: buffer_of_def)
  have 4: "\<exists>n. get_number_of_particles store_one_x = Inr n \<and> n < length [0::nat, 0]"
    using n by simp
  show ?thesis
    using 1 2 3 4
      remove_raises_exactly_on_too_many_indices
        [of "\<lambda>i. 0" "buffer_of [5, 6, 7]" "[1]" store_one_x "[0]"]
      remove_raises_exactly_on_too_many_indices
        [of "\<lambda>i. 0" "buffer_of [5, 6, 7]" "[0, 1, 2, 0]" store_one_x "[0, 0]"]
    by blast
qed

text \<open>
  C10 (\<^verbatim>\<open>DeviceHelper.extend\<close> with a count that is not positive). The call
  returns at once: the store, with every buffer, is the one it was given and nothing is
  raised.
\<close>

theorem extend_dh_nonpositive:
  "num_particles \<le> 0 \<Longrightarrow> extend_dh j s num_particles = Inr s"
  by (simp add: extend_dh_def)

theorem extend_dh_nonpositive_witness:
  "(-1::int) \<le> 0 \<and> extend_dh (\<lambda>i. 0) store_one_x (-1) = Inr store_one_x \<and>
   extend_dh (\<lambda>i. 0) store_one_x 0 = Inr store_one_x"
  using extend_dh_nonpositive[of "-1" "\<lambda>i. 0" store_one_x]
    extend_dh_nonpositive[of 0 "\<lambda>i. 0" store_one_x]
  by simp



subsection \<open>Claims that hold in an amended form\<close>

text \<open>
  C5 as stated fails: \<^verbatim>\<open>add_particles\<close> ends with \<^verbatim>\<open>align_particles\<close>, which
  sorts the particles by tag. Adding one particle with \<open>x = [9]\<close> to the store of one
  ghost particle (tag 1, \<open>x = [5]\<close>) gives \<open>x = [9, 5]\<close> and \<open>tag = [0, 1]\<close>: the
  new value of \<open>x\<close> and the default tag of the new particle are in front, not at the
  tail.
\<close>

theorem add_particles_tail_counterexample:
  "raised (add_particles (\<lambda>i. 0) store_ghost [(''x'', [9])]) = None \<and>
   map_option array (data_h (state_of (add_particles (\<lambda>i. 0) store_ghost [(''x'', [9])])) ''x'')
     = Some [9, 5] \<and>
   map_option array (data_h (state_of (add_particles (\<lambda>i. 0) store_ghost [(''x'', [9])])) ''x'')
     \<noteq> Some ([5] @ [9]) \<and>
   map_option array (data_h (state_of (add_particles (\<lambda>i. 0) store_ghost [(''x'', [9])])) ''tag'')
     = Some [0, 1]"
  by (simp add: store_ghost_def eval_defs upt_conv_Cons)

text \<open>
  C5, amended. Let the store be consistent, with the property \<^verbatim>\<open>tag\<close> and a default
  for every property, let the input name registered properties only, with \<open>k > 0\<close>
  values each, and let no buffer named by the input have more allocated slots than its
  length plus \<open>k\<close>. Then \<^verbatim>\<open>add_particles\<close> returns, and every property buffer
  holds its old values followed by the values given for it, or by \<open>k\<close> times its
  default, rearranged in the stable order of the tags of all particles. Where the tags
  are in that order already (all 0, for example), the buffer is the old values followed
  by the new ones, as the claim says.
\<close>

theorem add_particles_appends_then_partitions:
  assumes "consistent s" and "has_defaults s" and "''tag'' \<in> set (properties s)"
    and "particle_props \<noteq> []"
    and "list_all (\<lambda>kv. fst kv \<in> set (properties s) \<and> length (snd kv) = k) particle_props"
    and "0 < k"
    and "list_all (\<lambda>kv. case data_h s (fst kv) of None \<Rightarrow> True
                        | Some a \<Rightarrow> alloc a \<le> length_a a + k) particle_props"
  shows "\<exists>s' t. add_particles j s particle_props = Inr s' \<and> data_h s ''tag'' = Some t \<and>
     properties s' = properties s \<and>
     (\<forall>p\<in>set (properties s). \<exists>a a'. data_h s p = Some a \<and> data_h s' p = Some a' \<and>
        length_a a' = length_a a + k \<and>
        array a' = map (\<lambda>i. (array a @ new_values s particle_props k p) ! i)
                     (partition_order (array t @ new_values s particle_props k ''tag'')) \<and>
        (sorted (map (\<lambda>v. v mod 4) (array t @ new_values s particle_props k ''tag'')) \<longrightarrow>
           array a' = array a @ new_values s particle_props k p))"
proof -
  from assms(1) obtain n where n: "same_length s n" by (auto simp: consistent_def)
  from same_length_D[OF n assms(3)] obtain t where
    t: "data_h s ''tag'' = Some t" "length (array t) = n" by auto
  have len: "list_all (\<lambda>kv. length (snd kv) = k) particle_props"
    using assms(5) by (simp add: list_all_iff)
  let ?tags = "array t @ new_values s particle_props k ''tag''"
  from add_particles_result[OF assms t(1), of j] obtain s' where
    s': "add_particles j s particle_props = Inr s'" "properties s' = properties s"
      "\<forall>p\<in>set (properties s). \<exists>a a'. data_h s p = Some a \<and> data_h s' p = Some a' \<and>
        length_a a' = length_a a + k \<and>
        array a' = map (\<lambda>i. (array a @ new_values s particle_props k p) ! i)
                     (partition_order ?tags)"
    by blast
  have id: "map (\<lambda>i. (array a @ new_values s particle_props k p) ! i) (partition_order ?tags) =
      array a @ new_values s particle_props k p"
    if "sorted (map (\<lambda>v. v mod 4) ?tags)" "p \<in> set (properties s)" "data_h s p = Some a"
    for p a
  proof -
    from same_length_D[OF n that(2)] that(3) have "length (array a) = n" by auto
    then have "length (array a @ new_values s particle_props k p) = length ?tags"
      using t(2) length_new_values[OF assms(2) that(2) len]
        length_new_values[OF assms(2,3) len] by simp
    then show ?thesis
      unfolding partition_order_sorted[OF that(1)] by (metis map_nth)
  qed
  show ?thesis
    using s' t(1) id by (intro exI[of _ s'] exI[of _ t]) fastforce
qed

theorem add_particles_appends_then_partitions_witness:
  "consistent store_three \<and> has_defaults store_three \<and>
   ''tag'' \<in> set (properties store_three) \<and> [(''x'', [9, 9])] \<noteq> [] \<and>
   list_all (\<lambda>kv. fst kv \<in> set (properties store_three) \<and> length (snd kv) = 2)
     [(''x'', [9, 9])] \<and> (0::nat) < 2 \<and>
   list_all (\<lambda>kv. case data_h store_three (fst kv) of None \<Rightarrow> True
                   | Some a \<Rightarrow> alloc a \<le> length_a a + 2) [(''x'', [9, 9])] \<and>
   raised (add_particles (\<lambda>i. 0) store_three [(''x'', [9, 9])]) = None \<and>
   map_option array
     (data_h (state_of (add_particles (\<lambda>i. 0) store_three [(''x'', [9, 9])])) ''x'')
     = Some [1, 2, 3, 9, 9] \<and>
   map_option array
     (data_h (state_of (add_particles (\<lambda>i. 0) store_three [(''x'', [9, 9])])) ''y'')
     = Some [4, 5, 6, 7, 7]"
proof -
  have h1: "consistent store_three"
    by (auto simp: store_three_def eval_defs intro!: exI[of _ 3])
  have h2: "has_defaults store_three" and h3: "''tag'' \<in> set (properties store_three)"
    and h4: "[(''x'', [9::int, 9])] \<noteq> []"
    and h5: "list_all (\<lambda>kv. fst kv \<in> set (properties store_three) \<and> length (snd kv) = 2)
       [(''x'', [9, 9])]"
    and h6: "(0::nat) < 2"
    and h7: "list_all (\<lambda>kv. case data_h store_three (fst kv) of None \<Rightarrow> True
                   | Some a \<Rightarrow> alloc a \<le> length_a a + 2) [(''x'', [9, 9])]"
    by (simp_all add: store_three_def eval_defs)
  have r: "raised (add_particles (\<lambda>i. 0) store_three [(''x'', [9, 9])]) = None \<and>
   map_option array
     (data_h (state_of (add_particles (\<lambda>i. 0) store_three [(''x'', [9, 9])])) ''x'')
     = Some [1, 2, 3, 9, 9] \<and>
   map_option array
     (data_h (state_of (add_particles (\<lambda>i. 0) store_three [(''x'', [9, 9])])) ''y'')
     = Some [4, 5, 6, 7, 7]"
    by (simp add: store_three_def eval_defs upt_conv_Cons)
  show ?thesis
    using h1 h2 h3 h4 h5 h6 h7 r
      add_particles_appends_then_partitions[OF h1 h2 h3 h4 h5 h6 h7, of "\<lambda>i. 0"]
    by blast
qed

text \<open>
  C6 as stated fails for an empty index array: \<^verbatim>\<open>extract_particles\<close> returns the new
  store before the loop over the constants, so the constant \<^verbatim>\<open>c\<close> of the source is
  not in the store returned.
\<close>

theorem extract_particles_empty_counterexample:
  "extract_particles (\<lambda>i. 0) empty_store store_const [] None = Inr empty_store \<and>
   constants store_const = [''c''] \<and> constants empty_store = [] \<and>
   data_h empty_store ''c'' = None"
  by (simp add: extract_particles_def store_const_def empty_store_def)

text \<open>
  C6, amended. For an empty index array \<^verbatim>\<open>extract_particles\<close> returns the new empty
  store as it was constructed, without error. For a non-empty index array, whenever the
  call returns a store, every constant of the source is a constant of that store, and
  its buffer there is a copy of the source's buffer (unless the name is also the name of
  a property of the result, whose buffer \<^verbatim>\<open>align_particles\<close> then reorders). The
  call does return a store when all properties are extracted from a consistent store
  that has the property \<^verbatim>\<open>tag\<close>, a default for every property and a buffer for
  every constant, no constant bearing the name of a property, the indices are positions
  of particles, and the new container has no property of its own.
\<close>

theorem extract_particles_copies_constants:
  "extract_particles j result_array s [] props = Inr result_array \<and>
   (indices \<noteq> [] \<and> extract_particles j result_array s indices props = Inr r \<longrightarrow>
      list_all (\<lambda>c. c \<in> set (constants r) \<and>
                (c \<notin> set (properties r) \<longrightarrow>
                   (\<exists>b. data_h s c = Some b \<and> data_h r c = Some (copy b))))
        (constants s)) \<and>
   (consistent s \<and> has_defaults s \<and> ''tag'' \<in> set (properties s) \<and> indices \<noteq> [] \<and>
    list_all (\<lambda>i. i < number_of_particles s) indices \<and> properties result_array = [] \<and>
    list_all (\<lambda>c. data_h s c \<noteq> None \<and> c \<notin> set (properties s)) (constants s) \<longrightarrow>
      (\<exists>r'. extract_particles j result_array s indices None = Inr r'))"
  using extract_particles_constants[of j result_array s indices props r]
    extract_particles_returns[of s indices result_array j]
  by (simp add: extract_particles_def)

theorem extract_particles_copies_constants_witness:
  "[1, 0] \<noteq> ([]::nat list) \<and> consistent store_const \<and> has_defaults store_const \<and>
   ''tag'' \<in> set (properties store_const) \<and>
   list_all (\<lambda>i. i < number_of_particles store_const) [1, 0] \<and>
   properties empty_store = [] \<and>
   list_all (\<lambda>c. data_h store_const c \<noteq> None \<and> c \<notin> set (properties store_const))
     (constants store_const) \<and>
   (\<exists>r. extract_particles (\<lambda>i. 0) empty_store store_const [1, 0] None = Inr r \<and>
        constants store_const = [''c''] \<and> ''c'' \<in> set (constants r) \<and>
        ''c'' \<notin> set (properties r) \<and>
        data_h r ''c'' = Some (copy (buffer_of [3])) \<and>
        map_option array (data_h r ''x'') = Some [7, 8] \<and>
        map_option array (data_h r ''tag'') = Some [0, 1])"
proof -
  have h1: "consistent store_const"
    by (auto simp: store_const_def eval_defs intro!: exI[of _ 2])
  have h2: "has_defaults store_const" and h3: "''tag'' \<in> set (properties store_const)"
    and h4: "list_all (\<lambda>i. i < number_of_particles store_const) [1, 0]"
    and h5: "properties empty_store = []"
    and h6: "list_all (\<lambda>c. data_h store_const c \<noteq> None \<and> c \<notin> set (properties store_const))
       (constants store_const)"
    and h7: "constants store_const = [''c'']"
    and h8: "data_h store_const ''c'' = Some (buffer_of [3])"
    by (simp_all add: store_const_def empty_store_def eval_defs)
  note inst = extract_particles_copies_constants
    [of "\<lambda>i. 0" empty_store store_const None "[1, 0]"]
  from inst h1 h2 h3 h4 h5 h6 obtain r where
    r: "extract_particles (\<lambda>i. 0) empty_store store_const [1, 0] None = Inr r"
    by blast
  from inst[of r] r h7 h8 have c: "''c'' \<in> set (constants r)"
    "''c'' \<notin> set (properties r) \<longrightarrow> data_h r ''c'' = Some (copy (buffer_of [3]))"
    by auto
  have "case extract_particles (\<lambda>i. 0) empty_store store_const [1, 0] None of
          Inl e \<Rightarrow> False
        | Inr r \<Rightarrow> ''c'' \<notin> set (properties r) \<and>
            map_option array (data_h r ''x'') = Some [7, 8] \<and>
            map_option array (data_h r ''tag'') = Some [0, 1]"
    by (simp add: store_const_def empty_store_def eval_defs upt_conv_Cons)
  with r have e: "''c'' \<notin> set (properties r)"
    "map_option array (data_h r ''x'') = Some [7, 8]"
    "map_option array (data_h r ''tag'') = Some [0, 1]"
    by simp_all
  show ?thesis
    using h1 h2 h3 h4 h5 h6 h7 r c e by blast
qed

end
